theory Spec2Isabelle
  imports Main "HOL-Library.Word"
begin

unbundle bit_operations_syntax

section \<open>Machine model\<close>

text \<open>
  \<open>size_t\<close> is modelled as a natural number below \<open>2 ^ 64\<close> (an LP64 target); every C
  operation that can wrap is written with its \<open>mod SIZE_MAX1\<close>. A pointer is an option:
  \<open>None\<close> is \<open>NULL\<close>. A key is a NUL-terminated C string, modelled by the list of
  its bytes before the terminator, so that \<open>strcmp(a, b) == 0\<close> is equality. Undefined
  behaviour of the C program is a \<open>fault\<close>; a computation that does not return is
  \<open>None\<close> at the outer option.
\<close>

definition SIZE_MAX1 :: nat where
  "SIZE_MAX1 = 2 ^ 64"

datatype fault = DivByZero | NullDeref | OutOfBounds

type_synonym 'a run = "(fault + 'a) option"

definition HT_EXPANSION_FACTOR :: nat where
  "HT_EXPANSION_FACTOR = 2"

definition HT_PRIME :: nat where
  "HT_PRIME = 37"

section \<open>The hashing collaborator\<close>

text \<open>
  Modelled from the spec: \<open>fnv32a_hash_str\<close> lives in \<open>src/hash.c\<close>, which is not part
  of the sources at hand. The spec treats it as a deterministic black box from byte strings
  to a fixed-width unsigned integer, and the comment of \<open>hash_key\<close> names it an FNV-1a
  hash. Every operation of the table therefore takes the hash as a parameter \<open>H\<close>; the
  general theorems hold for any \<open>H\<close>. The concrete scenarios instantiate \<open>H\<close> with the
  standard 32-bit FNV-1a function below: start from the offset basis 2166136261 and, for
  each byte of the string in order (read as an unsigned value), xor the byte in and multiply
  by the prime 16777619 modulo \<open>2 ^ 32\<close>.
\<close>

definition fnv32a_hash_str :: "string \<Rightarrow> 32 word" where
  "fnv32a_hash_str str = foldl (\<lambda>h c. (h XOR of_nat (of_char c)) * 16777619) 2166136261 str"

section \<open>The probe function\<close>

text \<open>
  \<open>hash_key\<close>, lines 19 to 27. \<open>k % m\<close> with \<open>m = 0\<close> and \<open>k % (m - HT_PRIME)\<close> with
  \<open>m = HT_PRIME\<close> divide by zero. \<open>m - HT_PRIME\<close> is an unsigned subtraction: below 37 it
  wraps around.
\<close>

definition hash_key :: "(string \<Rightarrow> 32 word) \<Rightarrow> string option \<Rightarrow> nat \<Rightarrow> nat \<Rightarrow> fault + nat" where
  "hash_key H str rounds m =
     (case str of
        None \<Rightarrow> Inr 0
      | Some s \<Rightarrow>
          let k = unat (H s) in
          if m = 0 then Inl DivByZero
          else
            let h1 = k mod m;
                d = (m + SIZE_MAX1 - HT_PRIME) mod SIZE_MAX1 in
            if d = 0 then Inl DivByZero
            else
              let h2 = (HT_PRIME + k mod d) mod SIZE_MAX1 in
              Inr (((h1 + (rounds * h2) mod SIZE_MAX1) mod SIZE_MAX1) mod m))"

section \<open>The table\<close>

datatype HashSlotMarker = EMPTY | INSERTED | DELETED

record 'v HashSlot =
  slot_key :: "string option"
  slot_value :: "'v option"
  slot_state :: HashSlotMarker

record 'v HashMap =
  hm_slots :: "'v HashSlot list option"
  hm_size :: nat
  hm_capacity :: nat

text \<open>A slot as \<open>calloc\<close> leaves it: all bytes zero.\<close>

definition zero_slot :: "'v HashSlot" where
  "zero_slot = \<lparr>slot_key = None, slot_value = None, slot_state = EMPTY\<rparr>"

text \<open>
  \<open>hashmap_create\<close>, lines 45 to 58. The result of \<open>malloc\<close> is used unchecked; the result
  of \<open>calloc\<close> is checked. The two booleans say whether each allocation succeeds.
\<close>

definition hashmap_create :: "bool \<Rightarrow> bool \<Rightarrow> nat \<Rightarrow> fault + 'v HashMap option" where
  "hashmap_create malloc_ok calloc_ok capacity =
     (if \<not> malloc_ok then Inl NullDeref
      else if \<not> calloc_ok then Inr None
      else Inr (Some \<lparr>hm_slots = Some (replicate capacity zero_slot),
                       hm_size = 0, hm_capacity = capacity\<rparr>))"

text \<open>
  The loop condition shared by the three probing loops (lines 80, 162 and 188):
  \<open>slots[index].key != NULL && slots[index].state != EMPTY\<close>.
\<close>

definition occupied :: "'v HashSlot \<Rightarrow> bool" where
  "occupied s \<longleftrightarrow> slot_key s \<noteq> None \<and> slot_state s \<noteq> EMPTY"

text \<open>
  The probing loop of \<open>hashtable_slot_insert\<close> (lines 80 to 92), \<open>hashmap_remove\<close> (lines
  162 to 177) and \<open>hashmap_get\<close> (lines 188 to 197). The three loops are the same text up
  to what they do at a matching slot, which in each of them is followed by a \<open>return\<close>; the
  loop is modelled once and yields how it was left: at a slot whose key matches
  (\<open>Match index\<close>) or at a slot that fails the loop condition (\<open>Stop index\<close>). The loop has
  no bound on \<open>checks\<close>, so it is a partial function.
\<close>

datatype probe_exit = Match nat | Stop nat

partial_function (option) probe ::
  "(string \<Rightarrow> 32 word) \<Rightarrow> 'v HashSlot list \<Rightarrow> nat \<Rightarrow> string option \<Rightarrow> nat \<Rightarrow> nat \<Rightarrow> probe_exit run"
where
  "probe H slots capacity key checks index =
     (if length slots \<le> index then Some (Inl OutOfBounds)
      else if occupied (slots ! index) then
        (case key of
           None \<Rightarrow> Some (Inl NullDeref)
         | Some k \<Rightarrow>
             if slot_key (slots ! index) = Some k then Some (Inr (Match index))
             else
               (case hash_key H key ((checks + 1) mod SIZE_MAX1) capacity of
                  Inl e \<Rightarrow> Some (Inl e)
                | Inr index' \<Rightarrow> probe H slots capacity key ((checks + 1) mod SIZE_MAX1) index'))
      else Some (Inr (Stop index)))"

declare probe.simps [code]

text \<open>
  \<open>hashtable_slot_insert\<close>, lines 69 to 105. The array is updated in place; the model
  returns the array after the call together with the returned key pointer. \<open>strdup_ok\<close>
  says whether the duplication of the key succeeds. \<open>strcmp\<close> and \<open>strdup\<close> on a
  \<open>NULL\<close> key are faults.
\<close>

definition hashtable_slot_insert ::
  "(string \<Rightarrow> 32 word) \<Rightarrow> bool \<Rightarrow> 'v HashSlot list option \<Rightarrow> nat \<Rightarrow> string option \<Rightarrow> 'v option \<Rightarrow> int
     \<Rightarrow> ('v HashSlot list option \<times> string option) run"
where
  "hashtable_slot_insert H strdup_ok slots capacity key val cpy =
     (case slots of
        None \<Rightarrow> Some (Inr (None, None))
      | Some xs \<Rightarrow>
          (case hash_key H key 0 capacity of
             Inl e \<Rightarrow> Some (Inl e)
           | Inr index \<Rightarrow>
               (case probe H xs capacity key 0 index of
                  None \<Rightarrow> None
                | Some (Inl e) \<Rightarrow> Some (Inl e)
                | Some (Inr (Match i)) \<Rightarrow>
                    Some (Inr (Some (xs[i := (xs ! i)\<lparr>slot_value := val\<rparr>]), slot_key (xs ! i)))
                | Some (Inr (Stop i)) \<Rightarrow>
                    if cpy = 0 then
                      (case key of
                         None \<Rightarrow> Some (Inl NullDeref)
                       | Some k \<Rightarrow>
                           if \<not> strdup_ok then Some (Inr (Some xs, None))
                           else Some (Inr (Some (xs[i := \<lparr>slot_key = Some k, slot_value = val,
                                                         slot_state = INSERTED\<rparr>]), Some k)))
                    else Some (Inr (Some (xs[i := \<lparr>slot_key = key, slot_value = val,
                                                  slot_state = INSERTED\<rparr>]), key)))))"

text \<open>
  The \<open>for\<close> loop of \<open>hashtable_expand\<close>, lines 120 to 126, from index \<open>i\<close> on. The value
  returned by \<open>hashtable_slot_insert\<close> is dropped, as in the source. \<open>i < capacity\<close> holds
  before \<open>i++\<close>, which therefore does not wrap.
\<close>

function rehash ::
  "(string \<Rightarrow> 32 word) \<Rightarrow> 'v HashSlot list option \<Rightarrow> nat \<Rightarrow> nat \<Rightarrow> nat \<Rightarrow> 'v HashSlot list option
     \<Rightarrow> 'v HashSlot list option run"
where
  "rehash H old capacity new_capacity i new_slots =
     (if i < capacity then
        (case old of
           None \<Rightarrow> Some (Inl NullDeref)
         | Some xs \<Rightarrow>
             if length xs \<le> i then Some (Inl OutOfBounds)
             else if slot_state (xs ! i) = INSERTED then
               (case hashtable_slot_insert H True new_slots new_capacity
                       (slot_key (xs ! i)) (slot_value (xs ! i)) 1 of
                  None \<Rightarrow> None
                | Some (Inl e) \<Rightarrow> Some (Inl e)
                | Some (Inr (new_slots', _)) \<Rightarrow> rehash H old capacity new_capacity (i + 1) new_slots')
             else rehash H old capacity new_capacity (i + 1) new_slots)
      else Some (Inr new_slots))"
  by pat_completeness auto
termination
  by (relation "measure (\<lambda>(H, old, capacity, new_capacity, i, new_slots). capacity - i)") auto

declare rehash.simps [simp del]

text \<open>
  \<open>hashtable_expand\<close>, lines 115 to 136. \<open>calloc_ok\<close> says whether the allocation of the
  new array succeeds; its result is not checked by the source. Returns the table after the
  call and the new capacity.
\<close>

definition hashtable_expand ::
  "(string \<Rightarrow> 32 word) \<Rightarrow> bool \<Rightarrow> 'v HashMap \<Rightarrow> ('v HashMap \<times> nat) run"
where
  "hashtable_expand H calloc_ok hm =
     (let new_capacity = (hm_capacity hm * HT_EXPANSION_FACTOR) mod SIZE_MAX1;
          new_slots = (if calloc_ok then Some (replicate new_capacity zero_slot) else None)
      in case rehash H (hm_slots hm) (hm_capacity hm) new_capacity 0 new_slots of
           None \<Rightarrow> None
         | Some (Inl e) \<Rightarrow> Some (Inl e)
         | Some (Inr new_slots') \<Rightarrow>
             Some (Inr (hm\<lparr>hm_slots := new_slots', hm_capacity := new_capacity\<rparr>, new_capacity)))"

text \<open>
  \<open>hashmap_insert\<close>, lines 138 to 152. Returns the table after the call and the returned
  key pointer.
\<close>

definition hashmap_insert ::
  "(string \<Rightarrow> 32 word) \<Rightarrow> bool \<Rightarrow> bool \<Rightarrow> 'v HashMap \<Rightarrow> string option \<Rightarrow> 'v option
     \<Rightarrow> ('v HashMap \<times> string option) run"
where
  "hashmap_insert H calloc_ok strdup_ok hm key val =
     (if hm_slots hm = None \<or> val = None then Some (Inr (hm, None))
      else
        (case (if hm_capacity hm div HT_EXPANSION_FACTOR \<le> hm_size hm
               then hashtable_expand H calloc_ok hm
               else Some (Inr (hm, hm_capacity hm))) of
           None \<Rightarrow> None
         | Some (Inl e) \<Rightarrow> Some (Inl e)
         | Some (Inr (hm1, capacity)) \<Rightarrow>
             (case hashtable_slot_insert H strdup_ok (hm_slots hm1) capacity key val 0 of
                None \<Rightarrow> None
              | Some (Inl e) \<Rightarrow> Some (Inl e)
              | Some (Inr (slots', result)) \<Rightarrow>
                  if result = None then Some (Inr (hm1\<lparr>hm_slots := slots'\<rparr>, None))
                  else Some (Inr (hm1\<lparr>hm_slots := slots',
                                      hm_size := (hm_size hm1 + 1) mod SIZE_MAX1\<rparr>, result)))))"

text \<open>
  \<open>hashmap_remove\<close>, lines 155 to 181. Returns the table after the call and the returned
  \<open>int\<close>. \<open>size--\<close> is an unsigned decrement.
\<close>

definition hashmap_remove ::
  "(string \<Rightarrow> 32 word) \<Rightarrow> 'v HashMap \<Rightarrow> string option \<Rightarrow> ('v HashMap \<times> int) run"
where
  "hashmap_remove H hm key =
     (case hash_key H key 0 (hm_capacity hm) of
        Inl e \<Rightarrow> Some (Inl e)
      | Inr index \<Rightarrow>
          (case hm_slots hm of
             None \<Rightarrow> Some (Inl NullDeref)
           | Some xs \<Rightarrow>
               (case probe H xs (hm_capacity hm) key 0 index of
                  None \<Rightarrow> None
                | Some (Inl e) \<Rightarrow> Some (Inl e)
                | Some (Inr (Match i)) \<Rightarrow>
                    Some (Inr (hm\<lparr>hm_slots := Some (xs[i := \<lparr>slot_key = None, slot_value = None,
                                                               slot_state = DELETED\<rparr>]),
                                   hm_size := (hm_size hm + SIZE_MAX1 - 1) mod SIZE_MAX1\<rparr>, 1))
                | Some (Inr (Stop i)) \<Rightarrow> Some (Inr (hm, 0)))))"

text \<open>
  \<open>hashmap_get\<close>, lines 183 to 201. The table is not changed, so only the returned value
  pointer is given.
\<close>

definition hashmap_get ::
  "(string \<Rightarrow> 32 word) \<Rightarrow> 'v HashMap \<Rightarrow> string option \<Rightarrow> 'v option run"
where
  "hashmap_get H hm key =
     (case key of
        None \<Rightarrow> Some (Inr None)
      | Some k \<Rightarrow>
          (case hash_key H key 0 (hm_capacity hm) of
             Inl e \<Rightarrow> Some (Inl e)
           | Inr index \<Rightarrow>
               (case hm_slots hm of
                  None \<Rightarrow> Some (Inl NullDeref)
                | Some xs \<Rightarrow>
                    (case probe H xs (hm_capacity hm) key 0 index of
                       None \<Rightarrow> None
                     | Some (Inl e) \<Rightarrow> Some (Inl e)
                     | Some (Inr (Match i)) \<Rightarrow> Some (Inr (slot_value (xs ! i)))
                     | Some (Inr (Stop i)) \<Rightarrow> Some (Inr None)))))"

section \<open>Tables of the concrete scenarios\<close>

text \<open>
  The states that the scenarios below go through, written out slot by slot. Values are the
  numbers the spec's scenario stores.
\<close>

definition live :: "string \<Rightarrow> 'v \<Rightarrow> 'v HashSlot" where
  "live k v = \<lparr>slot_key = Some k, slot_value = Some v, slot_state = INSERTED\<rparr>"

definition tombstone :: "'v HashSlot" where
  "tombstone = \<lparr>slot_key = None, slot_value = None, slot_state = DELETED\<rparr>"

definition table :: "'v HashSlot list \<Rightarrow> nat \<Rightarrow> nat \<Rightarrow> 'v HashMap" where
  "table xs n c = \<lparr>hm_slots = Some xs, hm_size = n, hm_capacity = c\<rparr>"

definition scenario_t0 :: "nat HashMap" where
  "scenario_t0 = table [zero_slot, zero_slot, zero_slot, zero_slot,
                        zero_slot, zero_slot, zero_slot, zero_slot] 0 8"

definition scenario_t1 :: "nat HashMap" where
  "scenario_t1 = table [zero_slot, zero_slot, zero_slot, zero_slot,
                        live ''a'' 1, zero_slot, zero_slot, zero_slot] 1 8"

definition scenario_t2 :: "nat HashMap" where
  "scenario_t2 = table [zero_slot, zero_slot, zero_slot, zero_slot,
                        live ''a'' 1, live ''b'' 2, zero_slot, zero_slot] 2 8"

definition scenario_t3 :: "nat HashMap" where
  "scenario_t3 = table [zero_slot, zero_slot, live ''c'' 3, zero_slot,
                        live ''a'' 1, live ''b'' 2, zero_slot, zero_slot] 3 8"

definition scenario_t4 :: "nat HashMap" where
  "scenario_t4 = table [zero_slot, zero_slot, live ''c'' 3, live ''d'' 4,
                        live ''a'' 1, live ''b'' 2, zero_slot, zero_slot] 4 8"

definition scenario_t5 :: "nat HashMap" where
  "scenario_t5 = table [zero_slot, zero_slot, live ''c'' 3, live ''d'' 4,
                        live ''a'' 1, tombstone, zero_slot, zero_slot] 3 8"

definition scenario_t6 :: "nat HashMap" where
  "scenario_t6 = table [zero_slot, zero_slot, live ''c'' 3, live ''d'' 4,
                        live ''a'' 1, live ''b'' 5, zero_slot, zero_slot] 4 8"

text \<open>\<open>"a"\<close> and \<open>"i"\<close> share the first probe index 4 at capacity 8.\<close>

definition collide_t2 :: "nat HashMap" where
  "collide_t2 = table [zero_slot, zero_slot, zero_slot, zero_slot,
                       live ''a'' 1, live ''i'' 2, zero_slot, zero_slot] 2 8"

definition collide_t3 :: "nat HashMap" where
  "collide_t3 = table [zero_slot, zero_slot, zero_slot, zero_slot,
                       tombstone, live ''i'' 2, zero_slot, zero_slot] 1 8"

text \<open>\<open>"b"\<close> and \<open>"j"\<close> share the first probe index 5 at capacity 8.\<close>

definition chain_t1 :: "nat HashMap" where
  "chain_t1 = table [zero_slot, zero_slot, zero_slot, zero_slot,
                     zero_slot, live ''b'' 2, zero_slot, zero_slot] 1 8"

definition chain_t2 :: "nat HashMap" where
  "chain_t2 = table [zero_slot, zero_slot, zero_slot, zero_slot,
                     zero_slot, live ''b'' 2, zero_slot, live ''j'' 7] 2 8"

definition chain_t3 :: "nat HashMap" where
  "chain_t3 = table [zero_slot, zero_slot, zero_slot, zero_slot,
                     zero_slot, tombstone, zero_slot, live ''j'' 7] 1 8"

text \<open>The key \<open>"a"\<close> stored twice in a row.\<close>

definition update_t2 :: "nat HashMap" where
  "update_t2 = table [zero_slot, zero_slot, zero_slot, zero_slot,
                      live ''a'' 2, zero_slot, zero_slot, zero_slot] 2 8"

text \<open>\<open>"d"\<close> alone; \<open>"l"\<close> has the same first probe index 3 and a step that is 0 modulo 8.\<close>

definition cycle_t1 :: "nat HashMap" where
  "cycle_t1 = table [zero_slot, zero_slot, zero_slot, live ''d'' 4,
                     zero_slot, zero_slot, zero_slot, zero_slot] 1 8"

text \<open>The table that a resize leaves when \<open>calloc\<close> fails.\<close>

definition lost_t5 :: "nat HashMap" where
  "lost_t5 = \<lparr>hm_slots = None, hm_size = 4, hm_capacity = 16\<rparr>"

text \<open>The table after the fifth insert, which resizes to capacity 16.\<close>

definition grown_t5 :: "nat HashMap" where
  "grown_t5 = table [live ''e'' 5, zero_slot, live ''c'' 3, live ''d'' 4,
                     zero_slot, live ''b'' 2, zero_slot, zero_slot,
                     zero_slot, zero_slot, zero_slot, zero_slot,
                     live ''a'' 1, zero_slot, zero_slot, zero_slot] 5 16"

text \<open>
  The key \<open>"i"\<close> stored again while its first copy is hidden behind the tombstone of
  \<open>"a"\<close>, then \<open>"b"\<close> and \<open>"c"\<close>, then the table after the resize that the insert of
  \<open>"d"\<close> triggers.
\<close>

definition stale_t4 :: "nat HashMap" where
  "stale_t4 = table [zero_slot, zero_slot, zero_slot, zero_slot,
                     live ''i'' 3, live ''i'' 2, zero_slot, zero_slot] 2 8"

definition stale_t5 :: "nat HashMap" where
  "stale_t5 = table [zero_slot, zero_slot, zero_slot, zero_slot,
                     live ''i'' 3, live ''i'' 2, zero_slot, live ''b'' 4] 3 8"

definition stale_t6 :: "nat HashMap" where
  "stale_t6 = table [zero_slot, zero_slot, live ''c'' 5, zero_slot,
                     live ''i'' 3, live ''i'' 2, zero_slot, live ''b'' 4] 4 8"

definition stale_t7 :: "nat HashMap" where
  "stale_t7 = table [zero_slot, zero_slot, live ''c'' 5, live ''d'' 6,
                     live ''i'' 2, live ''b'' 4, zero_slot, zero_slot,
                     zero_slot, zero_slot, zero_slot, zero_slot,
                     zero_slot, zero_slot, zero_slot, zero_slot] 5 16"

text \<open>
  Four distinct keys at capacity 8, and what \<open>hashtable_expand\<close> makes of them: at
  capacity 16 the key \<open>"l"\<close> sits in slot 11, which is the only slot that \<open>"ae"\<close> probes.
\<close>

definition hang_t4 :: "nat HashMap" where
  "hang_t4 = table [zero_slot, zero_slot, live ''c'' 3, live ''l'' 4,
                    live ''a'' 1, live ''b'' 2, zero_slot, zero_slot] 4 8"

definition hang_t5 :: "nat HashMap" where
  "hang_t5 = table [zero_slot, zero_slot, live ''c'' 3, zero_slot,
                    zero_slot, live ''b'' 2, zero_slot, zero_slot,
                    zero_slot, zero_slot, zero_slot, live ''l'' 4,
                    live ''a'' 1, zero_slot, zero_slot, zero_slot] 4 16"

section \<open>Probe chains\<close>

text \<open>
  \<open>clear_path H xs cap k r\<close>: the first \<open>r\<close> rounds of the probe sequence of \<open>k\<close> all
  land on slots that keep the probing loop going (the loop condition holds and the key
  differs). \<open>reaches H xs cap k i\<close>: some round of the sequence lands on slot \<open>i\<close> after
  such a path.
\<close>

definition clear_path :: "(string \<Rightarrow> 32 word) \<Rightarrow> 'v HashSlot list \<Rightarrow> nat \<Rightarrow> string \<Rightarrow> nat \<Rightarrow> bool" where
  "clear_path H xs cap k r \<longleftrightarrow>
     (\<forall>r'<r. \<exists>j. hash_key H (Some k) r' cap = Inr j \<and> j < length xs
                 \<and> occupied (xs ! j) \<and> slot_key (xs ! j) \<noteq> Some k)"

definition reaches :: "(string \<Rightarrow> 32 word) \<Rightarrow> 'v HashSlot list \<Rightarrow> nat \<Rightarrow> string \<Rightarrow> nat \<Rightarrow> bool" where
  "reaches H xs cap k i \<longleftrightarrow>
     (\<exists>r<SIZE_MAX1. clear_path H xs cap k r \<and> hash_key H (Some k) r cap = Inr i \<and> i < length xs)"

text \<open>
  \<open>holds xs k v\<close>: some slot that the loop condition accepts stores key \<open>k\<close> with value
  \<open>v\<close>. \<open>chained\<close>: every such slot is reached by the probe sequence of its own key.
  \<open>tidy\<close>: every slot is either as \<open>calloc\<close> left it or \<open>INSERTED\<close> with a key, which is
  what an array holds that has seen insertions only.
\<close>

definition holds :: "'v HashSlot list \<Rightarrow> string \<Rightarrow> 'v option \<Rightarrow> bool" where
  "holds xs k v \<longleftrightarrow>
     (\<exists>i<length xs. occupied (xs ! i) \<and> slot_key (xs ! i) = Some k \<and> slot_value (xs ! i) = v)"

definition chained :: "(string \<Rightarrow> 32 word) \<Rightarrow> 'v HashSlot list \<Rightarrow> nat \<Rightarrow> bool" where
  "chained H xs cap \<longleftrightarrow>
     (\<forall>i<length xs. occupied (xs ! i) \<longrightarrow> (\<exists>k. slot_key (xs ! i) = Some k \<and> reaches H xs cap k i))"

definition tidy :: "'v HashSlot list \<Rightarrow> bool" where
  "tidy xs \<longleftrightarrow>
     (\<forall>i<length xs. xs ! i = zero_slot
        \<or> (\<exists>k v. xs ! i = \<lparr>slot_key = Some k, slot_value = v, slot_state = INSERTED\<rparr>))"

text \<open>
  The live entries of an array, read the way \<open>hashtable_expand\<close> reads them (by the state
  \<open>INSERTED\<close>), and the condition that no key is live in two slots and every live slot
  has a key.
\<close>

definition live_entry :: "'v HashSlot list \<Rightarrow> nat \<Rightarrow> string \<Rightarrow> 'v option \<Rightarrow> bool" where
  "live_entry xs j k v \<longleftrightarrow>
     j < length xs \<and> slot_state (xs ! j) = INSERTED \<and> slot_key (xs ! j) = Some k \<and> slot_value (xs ! j) = v"

definition live_keys_distinct :: "'v HashSlot list \<Rightarrow> bool" where
  "live_keys_distinct xs \<longleftrightarrow>
     distinct (map slot_key (filter (\<lambda>s. slot_state s = INSERTED) xs))
     \<and> (\<forall>s\<in>set xs. slot_state s = INSERTED \<longrightarrow> slot_key s \<noteq> None)"

section \<open>Histories of inserts\<close>

text \<open>
  A caller that stores a list of key/value pairs, in order, every allocation succeeding. It
  stops at the first fault and does not return when one of the inserts does not.
\<close>

fun insert_all :: "(string \<Rightarrow> 32 word) \<Rightarrow> 'v HashMap \<Rightarrow> (string \<times> 'v) list \<Rightarrow> 'v HashMap run" where
  "insert_all H hm [] = Some (Inr hm)"
| "insert_all H hm ((k, v) # kvs) =
     (case hashmap_insert H True True hm (Some k) (Some v) of
        None \<Rightarrow> None
      | Some (Inl e) \<Rightarrow> Some (Inl e)
      | Some (Inr (hm', _)) \<Rightarrow> insert_all H hm' kvs)"

text \<open>
  \<open>sound_table H hm xs\<close>: \<open>xs\<close> is the slot array of \<open>hm\<close>, it has \<open>capacity\<close> slots,
  and it is \<open>chained\<close> and \<open>tidy\<close>.
\<close>

definition sound_table :: "(string \<Rightarrow> 32 word) \<Rightarrow> 'v HashMap \<Rightarrow> 'v HashSlot list \<Rightarrow> bool" where
  "sound_table H hm xs \<longleftrightarrow>
     hm_slots hm = Some xs \<and> length xs = hm_capacity hm \<and> chained H xs (hm_capacity hm) \<and> tidy xs"

section \<open>Evaluation of the scenarios\<close>

lemma fnv_a: "unat (fnv32a_hash_str ''a'') = 3826002220"
  by (simp add: fnv32a_hash_str_def)

lemma fnv_b: "unat (fnv32a_hash_str ''b'') = 3876335077"
  by (simp add: fnv32a_hash_str_def)

lemma fnv_c: "unat (fnv32a_hash_str ''c'') = 3859557458"
  by (simp add: fnv32a_hash_str_def)

lemma fnv_d: "unat (fnv32a_hash_str ''d'') = 3775669363"
  by (simp add: fnv32a_hash_str_def)

lemma fnv_e: "unat (fnv32a_hash_str ''e'') = 3758891744"
  by (simp add: fnv32a_hash_str_def)

lemma fnv_i: "unat (fnv32a_hash_str ''i'') = 3960223172"
  by (simp add: fnv32a_hash_str_def)

lemma fnv_j: "unat (fnv32a_hash_str ''j'') = 4010556029"
  by (simp add: fnv32a_hash_str_def)

lemma fnv_l: "unat (fnv32a_hash_str ''l'') = 3909890315"
  by (simp add: fnv32a_hash_str_def)

lemmas fnv_values = fnv_a fnv_b fnv_c fnv_d fnv_e fnv_i fnv_j fnv_l

lemmas run_defs = hashmap_create_def hashmap_insert_def hashmap_get_def hashmap_remove_def
  hashtable_slot_insert_def hashtable_expand_def rehash.simps hash_key_def occupied_def
  probe.simps
  HT_EXPANSION_FACTOR_def HT_PRIME_def SIZE_MAX1_def Let_def
  table_def live_def tombstone_def zero_slot_def

lemma create_8: "hashmap_create True True 8 = Inr (Some scenario_t0)"
  by (simp add: run_defs scenario_t0_def numeral_eq_Suc)

lemma insert_a:
  "hashmap_insert fnv32a_hash_str True True scenario_t0 (Some ''a'') (Some 1)
     = Some (Inr (scenario_t1, Some ''a''))"
  by (simp add: run_defs fnv_values scenario_t0_def scenario_t1_def)

lemma insert_b:
  "hashmap_insert fnv32a_hash_str True True scenario_t1 (Some ''b'') (Some 2)
     = Some (Inr (scenario_t2, Some ''b''))"
  by (simp add: run_defs fnv_values scenario_t1_def scenario_t2_def)

lemma insert_c:
  "hashmap_insert fnv32a_hash_str True True scenario_t2 (Some ''c'') (Some 3)
     = Some (Inr (scenario_t3, Some ''c''))"
  by (simp add: run_defs fnv_values scenario_t2_def scenario_t3_def)

lemma insert_d:
  "hashmap_insert fnv32a_hash_str True True scenario_t3 (Some ''d'') (Some 4)
     = Some (Inr (scenario_t4, Some ''d''))"
  by (simp add: run_defs fnv_values scenario_t3_def scenario_t4_def)

lemma get_a_t4: "hashmap_get fnv32a_hash_str scenario_t4 (Some ''a'') = Some (Inr (Some 1))"
  by (simp add: run_defs fnv_values scenario_t4_def)

lemma get_b_t4: "hashmap_get fnv32a_hash_str scenario_t4 (Some ''b'') = Some (Inr (Some 2))"
  by (simp add: run_defs fnv_values scenario_t4_def)

lemma remove_b_t4:
  "hashmap_remove fnv32a_hash_str scenario_t4 (Some ''b'') = Some (Inr (scenario_t5, 1))"
  by (simp add: run_defs fnv_values scenario_t4_def scenario_t5_def)

lemma get_b_t5: "hashmap_get fnv32a_hash_str scenario_t5 (Some ''b'') = Some (Inr None)"
  by (simp add: run_defs fnv_values scenario_t5_def)

lemma insert_b_t5:
  "hashmap_insert fnv32a_hash_str True True scenario_t5 (Some ''b'') (Some 5)
     = Some (Inr (scenario_t6, Some ''b''))"
  by (simp add: run_defs fnv_values scenario_t5_def scenario_t6_def)

lemma get_b_t6: "hashmap_get fnv32a_hash_str scenario_t6 (Some ''b'') = Some (Inr (Some 5))"
  by (simp add: run_defs fnv_values scenario_t6_def)

lemma insert_i:
  "hashmap_insert fnv32a_hash_str True True scenario_t1 (Some ''i'') (Some 2)
     = Some (Inr (collide_t2, Some ''i''))"
  by (simp add: run_defs fnv_values scenario_t1_def collide_t2_def)

lemma get_i_t2: "hashmap_get fnv32a_hash_str collide_t2 (Some ''i'') = Some (Inr (Some 2))"
  by (simp add: run_defs fnv_values collide_t2_def)

lemma remove_a_t2:
  "hashmap_remove fnv32a_hash_str collide_t2 (Some ''a'') = Some (Inr (collide_t3, 1))"
  by (simp add: run_defs fnv_values collide_t2_def collide_t3_def)

lemma get_i_t3: "hashmap_get fnv32a_hash_str collide_t3 (Some ''i'') = Some (Inr None)"
  by (simp add: run_defs fnv_values collide_t3_def)

lemma insert_b_first:
  "hashmap_insert fnv32a_hash_str True True scenario_t0 (Some ''b'') (Some 2)
     = Some (Inr (chain_t1, Some ''b''))"
  by (simp add: run_defs fnv_values scenario_t0_def chain_t1_def)

lemma insert_j:
  "hashmap_insert fnv32a_hash_str True True chain_t1 (Some ''j'') (Some 7)
     = Some (Inr (chain_t2, Some ''j''))"
  by (simp add: run_defs fnv_values chain_t1_def chain_t2_def)

lemma get_j_t2: "hashmap_get fnv32a_hash_str chain_t2 (Some ''j'') = Some (Inr (Some 7))"
  by (simp add: run_defs fnv_values chain_t2_def)

lemma remove_b_chain:
  "hashmap_remove fnv32a_hash_str chain_t2 (Some ''b'') = Some (Inr (chain_t3, 1))"
  by (simp add: run_defs fnv_values chain_t2_def chain_t3_def)

lemma get_j_t3: "hashmap_get fnv32a_hash_str chain_t3 (Some ''j'') = Some (Inr None)"
  by (simp add: run_defs fnv_values chain_t3_def)

lemma insert_a_again:
  "hashmap_insert fnv32a_hash_str True True scenario_t1 (Some ''a'') (Some 2)
     = Some (Inr (update_t2, Some ''a''))"
  by (simp add: run_defs fnv_values scenario_t1_def update_t2_def)

lemma insert_d_first:
  "hashmap_insert fnv32a_hash_str True True scenario_t0 (Some ''d'') (Some 4)
     = Some (Inr (cycle_t1, Some ''d''))"
  by (simp add: run_defs fnv_values scenario_t0_def cycle_t1_def)

lemma insert_e_calloc_fails:
  "hashmap_insert fnv32a_hash_str False True scenario_t4 (Some ''e'') (Some 5)
     = Some (Inr (lost_t5, None))"
  by (simp add: run_defs fnv_values scenario_t4_def lost_t5_def)

lemma get_a_lost: "hashmap_get fnv32a_hash_str lost_t5 (Some ''a'') = Some (Inl NullDeref)"
  by (simp add: run_defs fnv_values lost_t5_def)

lemma replicate_16:
  "replicate 16 x = [x, x, x, x, x, x, x, x, x, x, x, x, x, x, x, x]"
  by (simp add: numeral_eq_Suc)

lemma insert_e_grows:
  "hashmap_insert fnv32a_hash_str True True scenario_t4 (Some ''e'') (Some 5)
     = Some (Inr (grown_t5, Some ''e''))"
  by (simp add: run_defs fnv_values scenario_t4_def grown_t5_def replicate_16)

lemma fnv_ae: "unat (fnv32a_hash_str ''ae'') = 1210383851"
  by (simp add: fnv32a_hash_str_def)

lemma insert_i_again:
  "hashmap_insert fnv32a_hash_str True True collide_t3 (Some ''i'') (Some 3)
     = Some (Inr (stale_t4, Some ''i''))"
  by (simp add: run_defs fnv_values collide_t3_def stale_t4_def)

lemma insert_b_stale:
  "hashmap_insert fnv32a_hash_str True True stale_t4 (Some ''b'') (Some 4)
     = Some (Inr (stale_t5, Some ''b''))"
  by (simp add: run_defs fnv_values stale_t4_def stale_t5_def)

lemma insert_c_stale:
  "hashmap_insert fnv32a_hash_str True True stale_t5 (Some ''c'') (Some 5)
     = Some (Inr (stale_t6, Some ''c''))"
  by (simp add: run_defs fnv_values stale_t5_def stale_t6_def)

lemma get_i_t4: "hashmap_get fnv32a_hash_str stale_t4 (Some ''i'') = Some (Inr (Some 3))"
  by (simp add: run_defs fnv_values stale_t4_def)

lemma get_i_t6: "hashmap_get fnv32a_hash_str stale_t6 (Some ''i'') = Some (Inr (Some 3))"
  by (simp add: run_defs fnv_values stale_t6_def)

lemma insert_d_stale:
  "hashmap_insert fnv32a_hash_str True True stale_t6 (Some ''d'') (Some 6)
     = Some (Inr (stale_t7, Some ''d''))"
  by (simp add: run_defs fnv_values stale_t6_def stale_t7_def replicate_16)

lemma get_i_t7: "hashmap_get fnv32a_hash_str stale_t7 (Some ''i'') = Some (Inr (Some 2))"
  by (simp add: run_defs fnv_values stale_t7_def)

lemma insert_l_hang:
  "hashmap_insert fnv32a_hash_str True True scenario_t3 (Some ''l'') (Some 4)
     = Some (Inr (hang_t4, Some ''l''))"
  by (simp add: run_defs fnv_values scenario_t3_def hang_t4_def)

lemma expand_hang:
  "hashtable_expand fnv32a_hash_str True hang_t4 = Some (Inr (hang_t5, 16))"
  by (simp add: run_defs fnv_values hang_t4_def hang_t5_def replicate_16)

section \<open>Lookup along a probe chain\<close>

text \<open>
  The probing loop follows a clear path to its end: it returns \<open>Match\<close> or \<open>Stop\<close> at
  the slot the path leads to, and whenever it returns, it returns at the end of a clear
  path. In a \<open>chained\<close> array every stored key is therefore found, no key is stored
  twice, and \<open>hashtable_slot_insert\<close> keeps the array \<open>chained\<close> and \<open>tidy\<close>.
\<close>

lemma clear_path_0: "clear_path H xs cap k 0"
  by (simp add: clear_path_def)

lemma clear_path_Suc:
  "clear_path H xs cap k (Suc r) \<longleftrightarrow>
     clear_path H xs cap k r \<and>
     (\<exists>j. hash_key H (Some k) r cap = Inr j \<and> j < length xs
          \<and> occupied (xs ! j) \<and> slot_key (xs ! j) \<noteq> Some k)"
  by (auto simp: clear_path_def less_Suc_eq)

lemma clear_path_mono: "clear_path H xs cap k r \<Longrightarrow> r' \<le> r \<Longrightarrow> clear_path H xs cap k r'"
  by (simp add: clear_path_def)

lemma probe_along_path:
  assumes "clear_path H xs cap k r" and "r < SIZE_MAX1"
    and "hash_key H (Some k) r cap = Inr i"
    and "c \<le> r" and "hash_key H (Some k) c cap = Inr ic"
  shows "probe H xs cap (Some k) c ic = probe H xs cap (Some k) r i"
  using assms(4,5)
proof (induction "r - c" arbitrary: c ic)
  case 0
  with assms(3) show ?case by simp
next
  case (Suc n)
  then have lt: "c < r" by simp
  with assms(1) obtain j where j: "hash_key H (Some k) c cap = Inr j" "j < length xs"
      "occupied (xs ! j)" "slot_key (xs ! j) \<noteq> Some k"
    by (auto simp: clear_path_def)
  with Suc.prems have ic: "ic = j" by simp
  have c1: "(c + 1) mod SIZE_MAX1 = c + 1"
    using lt assms(2) by simp
  obtain ic' where ic': "hash_key H (Some k) (c + 1) cap = Inr ic'"
  proof (cases "c + 1 = r")
    case True
    with assms(3) that show ?thesis by simp
  next
    case False
    with lt have "c + 1 < r" by simp
    with assms(1) that show ?thesis by (auto simp: clear_path_def)
  qed
  have "probe H xs cap (Some k) c ic = probe H xs cap (Some k) (c + 1) ic'"
    using j ic c1 ic' by (subst probe.simps) simp
  also have "\<dots> = probe H xs cap (Some k) r i"
    using Suc.hyps(2) lt ic' by (intro Suc.hyps(1)) simp_all
  finally show ?case .
qed

lemma probe_result:
  assumes "probe H xs cap key c ic = Some y"
  shows "\<forall>k e. key = Some k \<and> y = Inr e \<and> c < SIZE_MAX1 \<and> hash_key H (Some k) c cap = Inr ic
            \<and> clear_path H xs cap k c \<longrightarrow>
          (\<exists>r i. r < SIZE_MAX1 \<and> clear_path H xs cap k r \<and> hash_key H (Some k) r cap = Inr i
                \<and> i < length xs
                \<and> ((e = Match i \<and> occupied (xs ! i) \<and> slot_key (xs ! i) = Some k)
                    \<or> (e = Stop i \<and> \<not> occupied (xs ! i))))"
proof (rule probe.raw_induct[where P = "\<lambda>H xs cap key c ic y.
    \<forall>k e. key = Some k \<and> y = Inr e \<and> c < SIZE_MAX1 \<and> hash_key H (Some k) c cap = Inr ic
            \<and> clear_path H xs cap k c \<longrightarrow>
          (\<exists>r i. r < SIZE_MAX1 \<and> clear_path H xs cap k r \<and> hash_key H (Some k) r cap = Inr i
                \<and> i < length xs
                \<and> ((e = Match i \<and> occupied (xs ! i) \<and> slot_key (xs ! i) = Some k)
                    \<or> (e = Stop i \<and> \<not> occupied (xs ! i))))", OF _ assms], goal_cases)
  case (1 f H xs cap key c ic y)
  show ?case
  proof (intro allI impI, elim conjE)
    fix k e
    assume key: "key = Some k" and y: "y = Inr e" and c: "c < SIZE_MAX1"
      and hc: "hash_key H (Some k) c cap = Inr ic" and cp: "clear_path H xs cap k c"
    let ?goal = "\<exists>r i. r < SIZE_MAX1 \<and> clear_path H xs cap k r \<and> hash_key H (Some k) r cap = Inr i
                \<and> i < length xs
                \<and> ((e = Match i \<and> occupied (xs ! i) \<and> slot_key (xs ! i) = Some k)
                    \<or> (e = Stop i \<and> \<not> occupied (xs ! i)))"
    have len: "ic < length xs"
      using 1(2) y by (auto split: if_splits)
    show ?goal
    proof (cases "occupied (xs ! ic)")
      case False
      with 1(2) len y have "e = Stop ic" by simp
      with False c hc cp len show ?thesis by blast
    next
      case occ: True
      show ?thesis
      proof (cases "slot_key (xs ! ic) = Some k")
        case True
        with 1(2) len y occ key have "e = Match ic" by simp
        with True occ c hc cp len show ?thesis by blast
      next
        case False
        let ?c' = "(c + 1) mod SIZE_MAX1"
        from 1(2) len y occ key False
        obtain ic' where ic': "hash_key H (Some k) ?c' cap = Inr ic'"
          and f: "f H xs cap key ?c' ic' = Some y"
          by (auto split: sum.splits)
        have c': "?c' < SIZE_MAX1"
          by (simp add: SIZE_MAX1_def)
        have cp': "clear_path H xs cap k ?c'"
        proof (cases "c + 1 < SIZE_MAX1")
          case True
          then have "?c' = Suc c" by simp
          with cp hc len occ False show ?thesis
            by (simp add: clear_path_Suc)
        next
          case False
          with c have "c + 1 = SIZE_MAX1" by simp
          then have "?c' = 0" by simp
          then show ?thesis by (simp add: clear_path_0)
        qed
        from 1(1)[OF f] key y c' ic' cp' show ?thesis by blast
      qed
    qed
  qed
qed


lemma hash_key_0_of_reaches:
  assumes "reaches H xs cap k i"
  shows "\<exists>i0. hash_key H (Some k) 0 cap = Inr i0"
proof -
  from assms obtain r where r: "r < SIZE_MAX1" "clear_path H xs cap k r"
      "hash_key H (Some k) r cap = Inr i"
    by (auto simp: reaches_def)
  show ?thesis
  proof (cases r)
    case 0
    with r show ?thesis by auto
  next
    case (Suc n)
    with r(2) show ?thesis by (auto simp: clear_path_def)
  qed
qed

lemma probe_finds:
  assumes "reaches H xs cap k i" and "occupied (xs ! i)" and "slot_key (xs ! i) = Some k"
    and "hash_key H (Some k) 0 cap = Inr i0"
  shows "probe H xs cap (Some k) 0 i0 = Some (Inr (Match i))"
proof -
  from assms(1) obtain r where r: "r < SIZE_MAX1" "clear_path H xs cap k r"
      "hash_key H (Some k) r cap = Inr i" "i < length xs"
    by (auto simp: reaches_def)
  have "probe H xs cap (Some k) 0 i0 = probe H xs cap (Some k) r i"
    using r assms(4) by (intro probe_along_path) simp_all
  also have "\<dots> = Some (Inr (Match i))"
    using r(4) assms(2,3) by (subst probe.simps) simp
  finally show ?thesis .
qed

lemma probe_stops:
  assumes "reaches H xs cap k i" and "\<not> occupied (xs ! i)"
    and "hash_key H (Some k) 0 cap = Inr i0"
  shows "probe H xs cap (Some k) 0 i0 = Some (Inr (Stop i))"
proof -
  from assms(1) obtain r where r: "r < SIZE_MAX1" "clear_path H xs cap k r"
      "hash_key H (Some k) r cap = Inr i" "i < length xs"
    by (auto simp: reaches_def)
  have "probe H xs cap (Some k) 0 i0 = probe H xs cap (Some k) r i"
    using r assms(3) by (intro probe_along_path) simp_all
  also have "\<dots> = Some (Inr (Stop i))"
    using r(4) assms(2) by (subst probe.simps) simp
  finally show ?thesis .
qed

lemma probe_0_result:
  assumes "probe H xs cap (Some k) 0 i0 = Some (Inr e)" and "hash_key H (Some k) 0 cap = Inr i0"
  shows "\<exists>i. reaches H xs cap k i
           \<and> ((e = Match i \<and> occupied (xs ! i) \<and> slot_key (xs ! i) = Some k)
               \<or> (e = Stop i \<and> \<not> occupied (xs ! i)))"
proof -
  have "0 < SIZE_MAX1" by (simp add: SIZE_MAX1_def)
  with probe_result[OF assms(1)] assms(2) clear_path_0[of H xs cap k]
  show ?thesis
    unfolding reaches_def by blast
qed

lemma reaches_same_slot:
  assumes "reaches H xs cap k i" and "reaches H xs cap k i'"
    and "\<not> occupied (xs ! i) \<or> slot_key (xs ! i) = Some k"
    and "\<not> occupied (xs ! i') \<or> slot_key (xs ! i') = Some k"
  shows "i = i'"
proof -
  from assms(1) obtain r where r: "clear_path H xs cap k r" "hash_key H (Some k) r cap = Inr i"
    by (auto simp: reaches_def)
  from assms(2) obtain r' where r': "clear_path H xs cap k r'" "hash_key H (Some k) r' cap = Inr i'"
    by (auto simp: reaches_def)
  have "\<not> r < r'"
    using r'(1) r(2) assms(3) by (auto simp: clear_path_def)
  moreover have "\<not> r' < r"
    using r(1) r'(2) assms(4) by (auto simp: clear_path_def)
  ultimately have "r = r'" by simp
  with r(2) r'(2) show ?thesis by simp
qed

lemma chained_key_unique:
  assumes "chained H xs cap" and "i < length xs" and "occupied (xs ! i)" and "slot_key (xs ! i) = Some k"
    and "j < length xs" and "occupied (xs ! j)" and "slot_key (xs ! j) = Some k"
  shows "i = j"
proof -
  from assms have "reaches H xs cap k i" and "reaches H xs cap k j"
    by (auto simp: chained_def)
  with assms show ?thesis
    by (intro reaches_same_slot[of H xs cap k i j]) simp_all
qed

lemma hashmap_get_chained:
  assumes "hm_slots hm = Some xs" and "chained H xs (hm_capacity hm)"
    and "i < length xs" and "occupied (xs ! i)" and "slot_key (xs ! i) = Some k"
  shows "hashmap_get H hm (Some k) = Some (Inr (slot_value (xs ! i)))"
proof -
  from assms have re: "reaches H xs (hm_capacity hm) k i"
    by (auto simp: chained_def)
  then obtain i0 where i0: "hash_key H (Some k) 0 (hm_capacity hm) = Inr i0"
    using hash_key_0_of_reaches by blast
  from probe_finds[OF re assms(4,5) i0] i0 assms(1) show ?thesis
    by (simp add: hashmap_get_def)
qed

lemma hashmap_get_holds:
  assumes "hm_slots hm = Some xs" and "chained H xs (hm_capacity hm)" and "holds xs k v"
  shows "hashmap_get H hm (Some k) = Some (Inr v)"
  using assms hashmap_get_chained[OF assms(1,2)] by (auto simp: holds_def)


lemma clear_path_cong:
  assumes "length ys = length xs"
    and "\<And>j. j < length xs \<Longrightarrow> occupied (ys ! j) = occupied (xs ! j) \<and> slot_key (ys ! j) = slot_key (xs ! j)"
  shows "clear_path H ys cap k r = clear_path H xs cap k r"
  using assms unfolding clear_path_def by metis

lemma reaches_cong:
  assumes "length ys = length xs"
    and "\<And>j. j < length xs \<Longrightarrow> occupied (ys ! j) = occupied (xs ! j) \<and> slot_key (ys ! j) = slot_key (xs ! j)"
  shows "reaches H ys cap k i = reaches H xs cap k i"
  using clear_path_cong[OF assms, of H cap k] assms(1) unfolding reaches_def by simp

lemma clear_path_claim:
  assumes "clear_path H xs cap k r" and "\<not> occupied (xs ! i)"
  shows "clear_path H (xs[i := s]) cap k r"
  unfolding clear_path_def
proof (intro allI impI)
  fix r'
  assume "r' < r"
  with assms(1) obtain j where j: "hash_key H (Some k) r' cap = Inr j" "j < length xs"
      "occupied (xs ! j)" "slot_key (xs ! j) \<noteq> Some k"
    by (auto simp: clear_path_def)
  with assms(2) have "j \<noteq> i" by auto
  with j show "\<exists>j. hash_key H (Some k) r' cap = Inr j \<and> j < length (xs[i := s])
      \<and> occupied (xs[i := s] ! j) \<and> slot_key (xs[i := s] ! j) \<noteq> Some k"
    by auto
qed

lemma reaches_claim:
  assumes "reaches H xs cap k j" and "\<not> occupied (xs ! i)"
  shows "reaches H (xs[i := s]) cap k j"
  using assms clear_path_claim[of H xs cap k _ i s] unfolding reaches_def by auto

lemma occupied_not_zero: "occupied s \<Longrightarrow> s \<noteq> zero_slot"
  by (auto simp: occupied_def zero_slot_def)

lemma slot_insert_match:
  assumes ch: "chained H xs cap" and td: "tidy xs"
    and i: "i < length xs" "occupied (xs ! i)" "slot_key (xs ! i) = Some k"
  shows "chained H (xs[i := (xs ! i)\<lparr>slot_value := v\<rparr>]) cap
       \<and> tidy (xs[i := (xs ! i)\<lparr>slot_value := v\<rparr>])
       \<and> (\<forall>k' v'. holds (xs[i := (xs ! i)\<lparr>slot_value := v\<rparr>]) k' v'
              \<longleftrightarrow> (if k' = k then v' = v else holds xs k' v'))"
proof -
  let ?ys = "xs[i := (xs ! i)\<lparr>slot_value := v\<rparr>]"
  have same: "occupied (?ys ! j) = occupied (xs ! j) \<and> slot_key (?ys ! j) = slot_key (xs ! j)"
    if "j < length xs" for j
    using that by (cases "j = i") (simp_all add: occupied_def)
  have len: "length ?ys = length xs" by simp
  have c: "chained H ?ys cap"
    unfolding chained_def
  proof (intro allI impI)
    fix j assume j: "j < length ?ys" "occupied (?ys ! j)"
    then have "occupied (xs ! j)" "j < length xs" using same by auto
    with ch obtain k' where "slot_key (xs ! j) = Some k'" "reaches H xs cap k' j"
      by (auto simp: chained_def)
    then show "\<exists>k. slot_key (?ys ! j) = Some k \<and> reaches H ?ys cap k j"
      using same[OF \<open>j < length xs\<close>] reaches_cong[OF len same, of H cap k' j] by auto
  qed
  have t: "tidy ?ys"
    unfolding tidy_def
  proof (intro allI impI)
    fix j assume j: "j < length ?ys"
    show "?ys ! j = zero_slot \<or> (\<exists>k v. ?ys ! j = \<lparr>slot_key = Some k, slot_value = v, slot_state = INSERTED\<rparr>)"
    proof (cases "j = i")
      case True
      from td i(1) occupied_not_zero[OF i(2)]
      obtain k0 v0 where "xs ! i = \<lparr>slot_key = Some k0, slot_value = v0, slot_state = INSERTED\<rparr>"
        by (auto simp: tidy_def)
      with True i(1) show ?thesis by simp
    next
      case False
      with td j show ?thesis by (auto simp: tidy_def)
    qed
  qed
  have h: "holds ?ys k' v' \<longleftrightarrow> (if k' = k then v' = v else holds xs k' v')" for k' v'
  proof (cases "k' = k")
    case True
    have "holds ?ys k v' \<longleftrightarrow> v' = v"
    proof
      assume "holds ?ys k v'"
      then obtain j where j: "j < length xs" "occupied (?ys ! j)" "slot_key (?ys ! j) = Some k"
          "slot_value (?ys ! j) = v'"
        by (auto simp: holds_def)
      with same have "occupied (xs ! j)" "slot_key (xs ! j) = Some k" by auto
      with chained_key_unique[OF ch i j(1)] have "j = i" by simp
      with j(4) i(1) show "v' = v" by simp
    next
      assume "v' = v"
      with i same[OF i(1)] show "holds ?ys k v'"
        unfolding holds_def by (intro exI[of _ i]) simp
    qed
    with True show ?thesis by simp
  next
    case False
    have "holds ?ys k' v' \<longleftrightarrow> holds xs k' v'"
      unfolding holds_def
    proof (intro iffI; elim exE conjE)
      fix j assume j: "j < length ?ys" "occupied (?ys ! j)" "slot_key (?ys ! j) = Some k'"
        "slot_value (?ys ! j) = v'"
      with same[of j] i(3) False have "j \<noteq> i" by auto
      with j same[of j] show "\<exists>j<length xs. occupied (xs ! j) \<and> slot_key (xs ! j) = Some k' \<and> slot_value (xs ! j) = v'"
        by (intro exI[of _ j]) auto
    next
      fix j assume j: "j < length xs" "occupied (xs ! j)" "slot_key (xs ! j) = Some k'"
        "slot_value (xs ! j) = v'"
      with i(3) False have "j \<noteq> i" by auto
      with j show "\<exists>j<length ?ys. occupied (?ys ! j) \<and> slot_key (?ys ! j) = Some k' \<and> slot_value (?ys ! j) = v'"
        by (intro exI[of _ j]) auto
    qed
    with False show ?thesis by simp
  qed
  from c t h show ?thesis by blast
qed

lemma slot_insert_claim:
  assumes ch: "chained H xs cap" and td: "tidy xs"
    and i: "reaches H xs cap k i" "\<not> occupied (xs ! i)"
  shows "chained H (xs[i := \<lparr>slot_key = Some k, slot_value = v, slot_state = INSERTED\<rparr>]) cap
       \<and> tidy (xs[i := \<lparr>slot_key = Some k, slot_value = v, slot_state = INSERTED\<rparr>])
       \<and> (\<forall>k' v'. holds (xs[i := \<lparr>slot_key = Some k, slot_value = v, slot_state = INSERTED\<rparr>]) k' v'
              \<longleftrightarrow> (if k' = k then v' = v else holds xs k' v'))"
proof -
  let ?s = "\<lparr>slot_key = Some k, slot_value = v, slot_state = INSERTED\<rparr>"
  let ?ys = "xs[i := ?s]"
  from i(1) have il: "i < length xs" by (auto simp: reaches_def)
  have occ_s: "occupied ?s" by (simp add: occupied_def)
  have c: "chained H ?ys cap"
    unfolding chained_def
  proof (intro allI impI)
    fix j assume j: "j < length ?ys" "occupied (?ys ! j)"
    show "\<exists>k. slot_key (?ys ! j) = Some k \<and> reaches H ?ys cap k j"
    proof (cases "j = i")
      case True
      with il reaches_claim[OF i, of ?s] show ?thesis by simp
    next
      case False
      with j have "occupied (xs ! j)" "j < length xs" by auto
      with ch obtain k' where "slot_key (xs ! j) = Some k'" "reaches H xs cap k' j"
        by (auto simp: chained_def)
      with False reaches_claim[OF _ i(2), of H cap k' j ?s] show ?thesis by simp
    qed
  qed
  have t: "tidy ?ys"
    unfolding tidy_def
  proof (intro allI impI)
    fix j assume j: "j < length ?ys"
    show "?ys ! j = zero_slot \<or> (\<exists>k v. ?ys ! j = \<lparr>slot_key = Some k, slot_value = v, slot_state = INSERTED\<rparr>)"
      using td j il by (cases "j = i") (auto simp: tidy_def)
  qed
  have absent: "\<not> holds xs k v0" for v0
  proof
    assume "holds xs k v0"
    then obtain j where j: "j < length xs" "occupied (xs ! j)" "slot_key (xs ! j) = Some k"
      by (auto simp: holds_def)
    with ch have "reaches H xs cap k j" by (auto simp: chained_def)
    from reaches_same_slot[OF i(1) this] i(2) j(3) have "i = j" by simp
    with i(2) j(2) show False by simp
  qed
  have h: "holds ?ys k' v' \<longleftrightarrow> (if k' = k then v' = v else holds xs k' v')" for k' v'
  proof (cases "k' = k")
    case True
    have "holds ?ys k v' \<longleftrightarrow> v' = v"
    proof
      assume "holds ?ys k v'"
      then obtain j where j: "j < length xs" "occupied (?ys ! j)" "slot_key (?ys ! j) = Some k"
          "slot_value (?ys ! j) = v'"
        by (auto simp: holds_def)
      show "v' = v"
      proof (cases "j = i")
        case True
        with j(4) il show ?thesis by simp
      next
        case False
        with j have "holds xs k v'" unfolding holds_def by (intro exI[of _ j]) simp
        with absent show ?thesis by simp
      qed
    next
      assume "v' = v"
      with il occ_s show "holds ?ys k v'"
        unfolding holds_def by (intro exI[of _ i]) simp
    qed
    with True show ?thesis by simp
  next
    case False
    have "holds ?ys k' v' \<longleftrightarrow> holds xs k' v'"
      unfolding holds_def
    proof (intro iffI; elim exE conjE)
      fix j assume j: "j < length ?ys" "occupied (?ys ! j)" "slot_key (?ys ! j) = Some k'"
        "slot_value (?ys ! j) = v'"
      with il False have "j \<noteq> i" by auto
      with j show "\<exists>j<length xs. occupied (xs ! j) \<and> slot_key (xs ! j) = Some k' \<and> slot_value (xs ! j) = v'"
        by (intro exI[of _ j]) auto
    next
      fix j assume j: "j < length xs" "occupied (xs ! j)" "slot_key (xs ! j) = Some k'"
        "slot_value (xs ! j) = v'"
      with i(2) have "j \<noteq> i" by auto
      with j show "\<exists>j<length ?ys. occupied (?ys ! j) \<and> slot_key (?ys ! j) = Some k' \<and> slot_value (?ys ! j) = v'"
        by (intro exI[of _ j]) auto
    qed
    with False show ?thesis by simp
  qed
  from c t h show ?thesis by blast
qed

lemma slot_insert_chained:
  assumes ch: "chained H xs cap" and td: "tidy xs"
    and ins: "hashtable_slot_insert H sd (Some xs) cap (Some k) v cpy = Some (Inr (res, rk))"
    and ok: "cpy \<noteq> 0 \<or> sd"
  shows "\<exists>ys. res = Some ys \<and> rk = Some k \<and> length ys = length xs \<and> chained H ys cap \<and> tidy ys
            \<and> (\<forall>k' v'. holds ys k' v' \<longleftrightarrow> (if k' = k then v' = v else holds xs k' v'))"
proof -
  from ins obtain i0 where i0: "hash_key H (Some k) 0 cap = Inr i0"
    by (auto simp: hashtable_slot_insert_def split: sum.splits)
  from ins i0 obtain e where e: "probe H xs cap (Some k) 0 i0 = Some (Inr e)"
    by (auto simp: hashtable_slot_insert_def split: option.splits sum.splits)
  from probe_0_result[OF e i0] obtain i where re: "reaches H xs cap k i"
    and cases: "(e = Match i \<and> occupied (xs ! i) \<and> slot_key (xs ! i) = Some k)
               \<or> (e = Stop i \<and> \<not> occupied (xs ! i))"
    by blast
  from re have il: "i < length xs" by (auto simp: reaches_def)
  from cases show ?thesis
  proof
    assume m: "e = Match i \<and> occupied (xs ! i) \<and> slot_key (xs ! i) = Some k"
    with ins i0 e have "res = Some (xs[i := (xs ! i)\<lparr>slot_value := v\<rparr>])" "rk = Some k"
      by (simp_all add: hashtable_slot_insert_def)
    with slot_insert_match[OF ch td il, of k v] m show ?thesis by simp
  next
    assume st: "e = Stop i \<and> \<not> occupied (xs ! i)"
    with ins i0 e ok
    have "res = Some (xs[i := \<lparr>slot_key = Some k, slot_value = v, slot_state = INSERTED\<rparr>])" "rk = Some k"
      by (auto simp: hashtable_slot_insert_def split: if_splits)
    with slot_insert_claim[OF ch td re, of v] st show ?thesis by simp
  qed
qed

section \<open>Rehashing\<close>

text \<open>
  The loop of \<open>hashtable_expand\<close> builds a \<open>chained\<close>, \<open>tidy\<close> array that holds
  exactly the live entries of the old one, provided no key is live twice there.
\<close>

lemma distinct_map_filter_nth:
  assumes "distinct (map f (filter P xs))" and "i < length xs" and "j < length xs"
    and "P (xs ! i)" and "P (xs ! j)" and "f (xs ! i) = f (xs ! j)"
  shows "i = j"
  using assms
proof (induction xs arbitrary: i j)
  case Nil
  then show ?case by simp
next
  case (Cons x xs)
  show ?case
  proof (cases i)
    case i0: 0
    show ?thesis
    proof (cases j)
      case 0
      with i0 show ?thesis by simp
    next
      case (Suc j')
      with Cons.prems i0 have "P x" "P (xs ! j')" "f x = f (xs ! j')" "j' < length xs" by simp_all
      then have "f x \<in> f ` {y \<in> set xs. P y}" by (metis (mono_tags, lifting) image_eqI mem_Collect_eq nth_mem)
      with Cons.prems(1) \<open>P x\<close> show ?thesis by simp
    qed
  next
    case iS: (Suc i')
    show ?thesis
    proof (cases j)
      case 0
      with Cons.prems iS have "P x" "P (xs ! i')" "f x = f (xs ! i')" "i' < length xs" by simp_all
      then have "f x \<in> f ` {y \<in> set xs. P y}" by (metis (mono_tags, lifting) image_eqI mem_Collect_eq nth_mem)
      with Cons.prems(1) \<open>P x\<close> show ?thesis by simp
    next
      case (Suc j')
      from Cons.prems(1) have d: "distinct (map f (filter P xs))" by (simp split: if_splits)
      from Cons.IH[OF d, of i' j'] Cons.prems iS Suc show ?thesis by simp
    qed
  qed
qed

lemma live_entry_unique:
  assumes "live_keys_distinct xs" and "live_entry xs i k v" and "live_entry xs j k v'"
  shows "i = j"
  using assms distinct_map_filter_nth[of slot_key "\<lambda>s. slot_state s = INSERTED" xs i j]
  by (simp add: live_keys_distinct_def live_entry_def)

lemma live_slot_has_key:
  assumes "live_keys_distinct xs" and "i < length xs" and "slot_state (xs ! i) = INSERTED"
  shows "\<exists>k. slot_key (xs ! i) = Some k"
  using assms by (auto simp: live_keys_distinct_def)

lemma rehash_chained:
  assumes "rehash H (Some xs) cap ncap i (Some ys) = Some (Inr res)"
    and "length xs = cap" and "i \<le> cap"
    and "live_keys_distinct xs"
    and "chained H ys ncap" and "tidy ys"
    and "\<forall>k v. holds ys k v \<longleftrightarrow> (\<exists>j<i. live_entry xs j k v)"
  shows "\<exists>ys'. res = Some ys' \<and> length ys' = length ys \<and> chained H ys' ncap \<and> tidy ys'
           \<and> (\<forall>k v. holds ys' k v \<longleftrightarrow> (\<exists>j<cap. live_entry xs j k v))"
  using assms(1,3,5,6,7)
proof (induction "cap - i" arbitrary: i ys)
  case 0
  then have "i = cap" by simp
  with 0(2) have "res = Some ys"
    by (subst (asm) rehash.simps) simp
  with 0 \<open>i = cap\<close> show ?case by simp
next
  case (Suc n)
  then have lt: "i < cap" by simp
  with assms(2) have il: "i < length xs" by simp
  show ?case
  proof (cases "slot_state (xs ! i) = INSERTED")
    case False
    have "rehash H (Some xs) cap ncap i (Some ys) = rehash H (Some xs) cap ncap (i + 1) (Some ys)"
      using lt il False by (subst rehash.simps) simp
    with Suc.prems(1) have r: "rehash H (Some xs) cap ncap (i + 1) (Some ys) = Some (Inr res)"
      by simp
    have "(\<exists>j<i + 1. live_entry xs j k v) \<longleftrightarrow> (\<exists>j<i. live_entry xs j k v)" for k v
      using False by (auto simp: live_entry_def less_Suc_eq)
    with Suc.prems(5) have h: "\<forall>k v. holds ys k v \<longleftrightarrow> (\<exists>j<i + 1. live_entry xs j k v)"
      by simp
    from Suc.hyps(2) lt have n: "n = cap - (i + 1)" by simp
    from Suc.hyps(1)[OF n r _ Suc.prems(3,4) h] lt show ?thesis by simp
  next
    case True
    from live_slot_has_key[OF assms(4) il True] obtain k where k: "slot_key (xs ! i) = Some k"
      by blast
    let ?v = "slot_value (xs ! i)"
    have unfold: "rehash H (Some xs) cap ncap i (Some ys) =
        (case hashtable_slot_insert H True (Some ys) ncap (Some k) ?v 1 of
           None \<Rightarrow> None
         | Some (Inl e) \<Rightarrow> Some (Inl e)
         | Some (Inr (new', _)) \<Rightarrow> rehash H (Some xs) cap ncap (i + 1) new')"
      using lt il True k by (subst rehash.simps) simp
    obtain new' rk where si: "hashtable_slot_insert H True (Some ys) ncap (Some k) ?v 1 = Some (Inr (new', rk))"
      and r: "rehash H (Some xs) cap ncap (i + 1) new' = Some (Inr res)"
    proof (cases "hashtable_slot_insert H True (Some ys) ncap (Some k) ?v 1")
      case None
      with unfold Suc.prems(1) show ?thesis by simp
    next
      case (Some a)
      show ?thesis
      proof (cases a)
        case (Inl e)
        with Some unfold Suc.prems(1) show ?thesis by simp
      next
        case (Inr p)
        obtain new' rk where "p = (new', rk)" by (cases p)
        with Inr Some unfold Suc.prems(1) that show ?thesis by simp
      qed
    qed
    from slot_insert_chained[OF Suc.prems(3,4) si]
    obtain ys1 where ys1: "new' = Some ys1" "length ys1 = length ys" "chained H ys1 ncap" "tidy ys1"
      and h1: "\<forall>k' v'. holds ys1 k' v' \<longleftrightarrow> (if k' = k then v' = ?v else holds ys k' v')"
      by auto
    have le: "live_entry xs i k ?v"
      using il True k by (simp add: live_entry_def)
    have h: "holds ys1 k' v' \<longleftrightarrow> (\<exists>j<i + 1. live_entry xs j k' v')" for k' v'
    proof (cases "k' = k")
      case True
      have "(\<exists>j<i + 1. live_entry xs j k v') \<longleftrightarrow> v' = ?v"
      proof
        assume "\<exists>j<i + 1. live_entry xs j k v'"
        then obtain j where j: "live_entry xs j k v'" by blast
        from live_entry_unique[OF assms(4) le j] j show "v' = ?v"
          by (simp add: live_entry_def)
      next
        assume "v' = ?v"
        with le show "\<exists>j<i + 1. live_entry xs j k v'" by auto
      qed
      with h1 True show ?thesis by simp
    next
      case False
      have "(\<exists>j<i + 1. live_entry xs j k' v') \<longleftrightarrow> (\<exists>j<i. live_entry xs j k' v')"
        using False k by (auto simp: live_entry_def less_Suc_eq)
      with h1 False Suc.prems(5) show ?thesis by simp
    qed
    from Suc.hyps(2) lt have n: "n = cap - (i + 1)" by simp
    from r ys1(1) have r': "rehash H (Some xs) cap ncap (i + 1) (Some ys1) = Some (Inr res)" by simp
    from h have h': "\<forall>k v. holds ys1 k v \<longleftrightarrow> (\<exists>j<i + 1. live_entry xs j k v)" by simp
    from Suc.hyps(1)[OF n r' _ ys1(3,4) h'] lt ys1(2) show ?thesis by simp
  qed
qed

lemma chained_replicate: "chained H (replicate n zero_slot) cap"
  by (simp add: chained_def occupied_def zero_slot_def)

lemma tidy_replicate: "tidy (replicate n zero_slot)"
  by (simp add: tidy_def)

lemma holds_replicate: "\<not> holds (replicate n zero_slot) k v"
  by (simp add: holds_def occupied_def zero_slot_def)

lemma expand_rehashed:
  assumes "hm_slots hm = Some xs" and "length xs = hm_capacity hm"
    and "live_keys_distinct xs"
    and "hashtable_expand H True hm = Some (Inr (hm1, c))"
  shows "c = (hm_capacity hm * HT_EXPANSION_FACTOR) mod SIZE_MAX1
       \<and> hm_capacity hm1 = c \<and> hm_size hm1 = hm_size hm
       \<and> (\<exists>ys. hm_slots hm1 = Some ys \<and> length ys = c \<and> chained H ys c \<and> tidy ys
              \<and> (\<forall>k v. holds ys k v \<longleftrightarrow> (\<exists>j. live_entry xs j k v)))"
proof -
  let ?cap = "hm_capacity hm"
  let ?n = "(?cap * HT_EXPANSION_FACTOR) mod SIZE_MAX1"
  have unfold: "hashtable_expand H True hm =
      (case rehash H (Some xs) ?cap ?n 0 (Some (replicate ?n zero_slot)) of
         None \<Rightarrow> None
       | Some (Inl e) \<Rightarrow> Some (Inl e)
       | Some (Inr new_slots') \<Rightarrow>
           Some (Inr (hm\<lparr>hm_slots := new_slots', hm_capacity := ?n\<rparr>, ?n)))"
    using assms(1) by (simp add: hashtable_expand_def Let_def)
  obtain res where r: "rehash H (Some xs) ?cap ?n 0 (Some (replicate ?n zero_slot)) = Some (Inr res)"
    and hm1: "hm1 = hm\<lparr>hm_slots := res, hm_capacity := ?n\<rparr>" and c: "c = ?n"
  proof (cases "rehash H (Some xs) ?cap ?n 0 (Some (replicate ?n zero_slot))")
    case None
    with unfold assms(4) show ?thesis by simp
  next
    case (Some a)
    show ?thesis
    proof (cases a)
      case (Inl e)
      with Some unfold assms(4) show ?thesis by simp
    next
      case (Inr res)
      with Some unfold assms(4) that show ?thesis by auto
    qed
  qed
  have h0: "\<forall>k v. holds (replicate ?n zero_slot) k v \<longleftrightarrow> (\<exists>j<0. live_entry xs j k v)"
    by (simp add: holds_replicate)
  from rehash_chained[OF r assms(2) _ assms(3) chained_replicate tidy_replicate h0]
  obtain ys where ys: "res = Some ys" "length ys = ?n" "chained H ys ?n" "tidy ys"
    and h: "\<forall>k v. holds ys k v \<longleftrightarrow> (\<exists>j<?cap. live_entry xs j k v)"
    by auto
  have "(\<exists>j<?cap. live_entry xs j k v) \<longleftrightarrow> (\<exists>j. live_entry xs j k v)" for k v
    using assms(2) by (auto simp: live_entry_def)
  with h have "\<forall>k v. holds ys k v \<longleftrightarrow> (\<exists>j. live_entry xs j k v)" by simp
  with ys hm1 c show ?thesis by simp
qed

lemma expand_chained:
  assumes "hm_slots hm = Some xs" and "length xs = hm_capacity hm"
    and "hm_capacity hm * HT_EXPANSION_FACTOR < SIZE_MAX1"
    and "live_keys_distinct xs"
    and "hashtable_expand H True hm = Some (Inr (hm', c))"
  shows "c = 2 * hm_capacity hm \<and> hm_capacity hm' = 2 * hm_capacity hm \<and> hm_size hm' = hm_size hm
       \<and> (\<exists>ys. hm_slots hm' = Some ys \<and> length ys = 2 * hm_capacity hm
              \<and> chained H ys (2 * hm_capacity hm) \<and> tidy ys
              \<and> (\<forall>k v. holds ys k v \<longleftrightarrow> (\<exists>j. live_entry xs j k v)))"
proof -
  from assms(3) have "(hm_capacity hm * HT_EXPANSION_FACTOR) mod SIZE_MAX1 = 2 * hm_capacity hm"
    by (simp add: HT_EXPANSION_FACTOR_def)
  with expand_rehashed[OF assms(1,2,4,5)] show ?thesis
    by auto
qed

lemma tidy_occupied_iff:
  assumes "tidy ys" and "i < length ys"
  shows "occupied (ys ! i) \<longleftrightarrow> slot_state (ys ! i) = INSERTED"
  using assms by (auto simp: tidy_def occupied_def zero_slot_def)

lemma slot_eqI:
  fixes s t :: "'v HashSlot"
  assumes "slot_key s = slot_key t" and "slot_value s = slot_value t" and "slot_state s = slot_state t"
  shows "s = t"
  using assms by (cases s, cases t) simp

lemma rehashed_slots:
  assumes "tidy ys" and "live_keys_distinct xs"
    and "\<forall>k v. holds ys k v \<longleftrightarrow> (\<exists>j. live_entry xs j k v)"
  shows "(\<forall>s\<in>set ys. s = zero_slot \<or> (slot_state s = INSERTED \<and> s \<in> set xs))
       \<and> (\<forall>s\<in>set xs. slot_state s = INSERTED \<longrightarrow> s \<in> set ys)"
proof (intro conjI ballI impI)
  fix s assume "s \<in> set ys"
  then obtain i where i: "i < length ys" "s = ys ! i"
    by (auto simp: in_set_conv_nth)
  show "s = zero_slot \<or> (slot_state s = INSERTED \<and> s \<in> set xs)"
  proof (cases "s = zero_slot")
    case True
    then show ?thesis by simp
  next
    case False
    with assms(1) i obtain k v where s: "s = \<lparr>slot_key = Some k, slot_value = v, slot_state = INSERTED\<rparr>"
      by (auto simp: tidy_def)
    with i have yi: "ys ! i = \<lparr>slot_key = Some k, slot_value = v, slot_state = INSERTED\<rparr>"
      by simp
    have "holds ys k v"
      unfolding holds_def using i(1) by (intro exI[of _ i]) (simp add: yi occupied_def)
    with assms(3) obtain j where "live_entry xs j k v" by blast
    then have "j < length xs" "xs ! j = s"
      using s by (auto simp: live_entry_def intro: slot_eqI)
    then have "s \<in> set xs" by (metis nth_mem)
    with s show ?thesis by simp
  qed
next
  fix s assume "s \<in> set xs" and st: "slot_state s = INSERTED"
  then obtain j where j: "j < length xs" "s = xs ! j"
    by (auto simp: in_set_conv_nth)
  from live_slot_has_key[OF assms(2) j(1)] st j(2) obtain k where k: "slot_key s = Some k"
    by auto
  with j st have "live_entry xs j k (slot_value s)"
    by (simp add: live_entry_def)
  with assms(3) have "holds ys k (slot_value s)" by blast
  then obtain i where i: "i < length ys" "occupied (ys ! i)" "slot_key (ys ! i) = Some k"
      "slot_value (ys ! i) = slot_value s"
    by (auto simp: holds_def)
  with tidy_occupied_iff[OF assms(1) i(1)] have "slot_state (ys ! i) = INSERTED" by simp
  with i k st have "ys ! i = s" by (intro slot_eqI) simp_all
  with i(1) show "s \<in> set ys" by (metis nth_mem)
qed

section \<open>Insert-only histories\<close>

text \<open>
  Insertion keeps a table \<open>chained\<close> and \<open>tidy\<close>, with or without a resize, so after
  \<open>hashmap_create\<close> and any list of inserts that all return, a key is found with the last
  value stored for it.
\<close>

lemma distinct_map_filterI:
  assumes "\<And>i j. i < length xs \<Longrightarrow> j < length xs \<Longrightarrow> P (xs ! i) \<Longrightarrow> P (xs ! j)
             \<Longrightarrow> f (xs ! i) = f (xs ! j) \<Longrightarrow> i = j"
  shows "distinct (map f (filter P xs))"
  using assms
proof (induction xs)
  case Nil
  then show ?case by simp
next
  case (Cons x xs)
  have tl: "distinct (map f (filter P xs))"
  proof (rule Cons.IH)
    fix i j
    assume "i < length xs" "j < length xs" "P (xs ! i)" "P (xs ! j)" "f (xs ! i) = f (xs ! j)"
    with Cons.prems[of "Suc i" "Suc j"] show "i = j" by simp
  qed
  have "f x \<notin> f ` {y \<in> set xs. P y}" if "P x"
  proof
    assume "f x \<in> f ` {y \<in> set xs. P y}"
    then obtain y where y: "y \<in> set xs" "P y" "f y = f x" by auto
    then obtain j where "j < length xs" "xs ! j = y" by (auto simp: in_set_conv_nth)
    with Cons.prems[of 0 "Suc j"] y that show False by simp
  qed
  with tl show ?case by simp
qed

lemma chained_tidy_live_distinct:
  assumes "chained H xs cap" and "tidy xs"
  shows "live_keys_distinct xs"
  unfolding live_keys_distinct_def
proof (intro conjI ballI impI)
  show "distinct (map slot_key (filter (\<lambda>s. slot_state s = INSERTED) xs))"
  proof (rule distinct_map_filterI)
    fix i j
    assume ij: "i < length xs" "j < length xs" "slot_state (xs ! i) = INSERTED"
      "slot_state (xs ! j) = INSERTED" "slot_key (xs ! i) = slot_key (xs ! j)"
    then have oi: "occupied (xs ! i)" and oj: "occupied (xs ! j)"
      using tidy_occupied_iff[OF assms(2)] by simp_all
    from oi obtain k where ki: "slot_key (xs ! i) = Some k" by (auto simp: occupied_def)
    with ij(5) have kj: "slot_key (xs ! j) = Some k" by simp
    from chained_key_unique[OF assms(1) ij(1) oi ki ij(2) oj kj] show "i = j" .
  qed
next
  fix s assume "s \<in> set xs" "slot_state s = INSERTED"
  then obtain i where "i < length xs" "xs ! i = s" by (auto simp: in_set_conv_nth)
  with assms(2) \<open>slot_state s = INSERTED\<close> show "slot_key s \<noteq> None"
    by (auto simp: tidy_def zero_slot_def)
qed

lemma tidy_live_entry_holds:
  assumes "tidy xs"
  shows "(\<exists>j. live_entry xs j k v) \<longleftrightarrow> holds xs k v"
  using tidy_occupied_iff[OF assms] unfolding live_entry_def holds_def by auto

lemma expand_sound:
  assumes "sound_table H hm xs" and "hashtable_expand H True hm = Some (Inr (hm1, c))"
  shows "\<exists>ys. sound_table H hm1 ys \<and> c = hm_capacity hm1 \<and> hm_size hm1 = hm_size hm
           \<and> (\<forall>k v. holds ys k v \<longleftrightarrow> holds xs k v)"
proof -
  from assms(1) have slots: "hm_slots hm = Some xs" and len: "length xs = hm_capacity hm"
    and ch: "chained H xs (hm_capacity hm)" and td: "tidy xs"
    by (simp_all add: sound_table_def)
  have lkd: "live_keys_distinct xs"
    using ch td by (rule chained_tidy_live_distinct)
  from expand_rehashed[OF slots len lkd assms(2)] tidy_live_entry_holds[OF td]
  show ?thesis
    by (auto simp: sound_table_def)
qed

lemma insert_sound:
  assumes "sound_table H hm xs"
    and "hashmap_insert H True True hm (Some k) (Some v) = Some (Inr (hm', res))"
  shows "\<exists>ys. sound_table H hm' ys
           \<and> (\<forall>k' w. holds ys k' w \<longleftrightarrow> (if k' = k then w = Some v else holds xs k' w))"
proof -
  let ?E = "if hm_capacity hm div HT_EXPANSION_FACTOR \<le> hm_size hm
            then hashtable_expand H True hm else Some (Inr (hm, hm_capacity hm))"
  from assms(1) have slots: "hm_slots hm = Some xs"
    by (simp add: sound_table_def)
  have unfold: "hashmap_insert H True True hm (Some k) (Some v) =
      (case ?E of
         None \<Rightarrow> None
       | Some (Inl e) \<Rightarrow> Some (Inl e)
       | Some (Inr (hm1, capacity)) \<Rightarrow>
           (case hashtable_slot_insert H True (hm_slots hm1) capacity (Some k) (Some v) 0 of
              None \<Rightarrow> None
            | Some (Inl e) \<Rightarrow> Some (Inl e)
            | Some (Inr (slots', result)) \<Rightarrow>
                if result = None then Some (Inr (hm1\<lparr>hm_slots := slots'\<rparr>, None))
                else Some (Inr (hm1\<lparr>hm_slots := slots',
                                    hm_size := (hm_size hm1 + 1) mod SIZE_MAX1\<rparr>, result))))"
    using slots by (simp add: hashmap_insert_def)
  obtain hm1 c where E: "?E = Some (Inr (hm1, c))"
  proof (cases ?E)
    case None
    with unfold assms(2) show ?thesis by simp
  next
    case (Some a)
    show ?thesis
    proof (cases a)
      case (Inl e)
      with Some unfold assms(2) show ?thesis by simp
    next
      case (Inr p)
      with Some that show ?thesis by (cases p) simp
    qed
  qed
  have "\<exists>ys. sound_table H hm1 ys \<and> c = hm_capacity hm1 \<and> (\<forall>k v. holds ys k v \<longleftrightarrow> holds xs k v)"
  proof (cases "hm_capacity hm div HT_EXPANSION_FACTOR \<le> hm_size hm")
    case True
    with E expand_sound[OF assms(1), of hm1 c] show ?thesis by auto
  next
    case False
    with E assms(1) show ?thesis by auto
  qed
  then obtain ys where s1: "sound_table H hm1 ys" and c: "c = hm_capacity hm1"
    and h1: "\<forall>k v. holds ys k v \<longleftrightarrow> holds xs k v"
    by blast
  then have ys: "hm_slots hm1 = Some ys" "length ys = hm_capacity hm1"
      "chained H ys (hm_capacity hm1)" "tidy ys"
    by (simp_all add: sound_table_def)
  let ?S = "hashtable_slot_insert H True (Some ys) (hm_capacity hm1) (Some k) (Some v) 0"
  from unfold E assms(2) ys(1) c have S: "(case ?S of
              None \<Rightarrow> None
            | Some (Inl e) \<Rightarrow> Some (Inl e)
            | Some (Inr (slots', result)) \<Rightarrow>
                if result = None then Some (Inr (hm1\<lparr>hm_slots := slots'\<rparr>, None))
                else Some (Inr (hm1\<lparr>hm_slots := slots',
                                    hm_size := (hm_size hm1 + 1) mod SIZE_MAX1\<rparr>, result)))
        = Some (Inr (hm', res))"
    by simp
  obtain slots' result where si: "?S = Some (Inr (slots', result))"
  proof (cases ?S)
    case None
    with S show ?thesis by simp
  next
    case (Some a)
    show ?thesis
    proof (cases a)
      case (Inl e)
      with Some S show ?thesis by simp
    next
      case (Inr p)
      with Some that show ?thesis by (cases p) simp
    qed
  qed
  from slot_insert_chained[OF ys(3,4) si]
  obtain ys2 where ys2: "slots' = Some ys2" "result = Some k" "length ys2 = length ys"
      "chained H ys2 (hm_capacity hm1)" "tidy ys2"
    and h2: "\<forall>k' v'. holds ys2 k' v' \<longleftrightarrow> (if k' = k then v' = Some v else holds ys k' v')"
    by auto
  from S si ys2(1,2)
  have "hm' = hm1\<lparr>hm_slots := Some ys2, hm_size := (hm_size hm1 + 1) mod SIZE_MAX1\<rparr>"
    by simp
  with ys2 ys(2) have "sound_table H hm' ys2"
    by (simp add: sound_table_def)
  with h2 h1 show ?thesis by auto
qed

lemma insert_all_sound:
  assumes "sound_table H hm0 xs" and "insert_all H hm0 kvs = Some (Inr hm)"
  shows "\<exists>ys. sound_table H hm ys
           \<and> (\<forall>k w. holds ys k w \<longleftrightarrow>
                 (case map_of (rev kvs) k of Some v \<Rightarrow> w = Some v | None \<Rightarrow> holds xs k w))"
  using assms
proof (induction kvs arbitrary: hm0 xs)
  case Nil
  then show ?case by auto
next
  case (Cons kv kvs)
  obtain k v where kv: "kv = (k, v)" by (cases kv)
  let ?I = "hashmap_insert H True True hm0 (Some k) (Some v)"
  from Cons.prems(2) kv have run: "(case ?I of
        None \<Rightarrow> None
      | Some (Inl e) \<Rightarrow> Some (Inl e)
      | Some (Inr (hm', _)) \<Rightarrow> insert_all H hm' kvs) = Some (Inr hm)"
    by simp
  obtain hm1 res where I: "?I = Some (Inr (hm1, res))"
  proof (cases ?I)
    case None
    with run show ?thesis by simp
  next
    case (Some a)
    show ?thesis
    proof (cases a)
      case (Inl e)
      with Some run show ?thesis by simp
    next
      case (Inr p)
      with Some that show ?thesis by (cases p) simp
    qed
  qed
  with run have rest: "insert_all H hm1 kvs = Some (Inr hm)" by simp
  from insert_sound[OF Cons.prems(1) I]
  obtain ys1 where s1: "sound_table H hm1 ys1"
    and h1: "\<forall>k' w. holds ys1 k' w \<longleftrightarrow> (if k' = k then w = Some v else holds xs k' w)"
    by blast
  from Cons.IH[OF s1 rest]
  obtain ys where s: "sound_table H hm ys"
    and h: "\<forall>k' w. holds ys k' w \<longleftrightarrow>
                 (case map_of (rev kvs) k' of Some v \<Rightarrow> w = Some v | None \<Rightarrow> holds ys1 k' w)"
    by blast
  have "holds ys k' w \<longleftrightarrow>
          (case map_of (rev (kv # kvs)) k' of Some v \<Rightarrow> w = Some v | None \<Rightarrow> holds xs k' w)" for k' w
    using h h1 kv by (auto simp: map_add_def split: option.splits)
  with s show ?case by blast
qed

lemma create_sound:
  assumes "hashmap_create True True n = Inr (Some hm0)"
  shows "sound_table H hm0 (replicate n zero_slot)"
  using assms by (auto simp: hashmap_create_def sound_table_def chained_replicate tidy_replicate)

lemma inserts_then_get:
  assumes "hashmap_create True True n = Inr (Some hm0)"
    and "insert_all H hm0 kvs = Some (Inr hm)"
    and "map_of (rev kvs) k = Some v"
  shows "hashmap_get H hm (Some k) = Some (Inr (Some v))"
proof -
  from insert_all_sound[OF create_sound[OF assms(1)] assms(2)] assms(3)
  obtain ys where s: "sound_table H hm ys" and h: "holds ys k (Some v)"
    by (auto split: option.splits)
  then show ?thesis
    by (intro hashmap_get_holds[of hm ys]) (simp_all add: sound_table_def)
qed

section \<open>The live keys stay distinct\<close>

text \<open>
  The condition \<open>live_keys_distinct\<close> by indices, and the operations that keep it: a
  removal, and an insert of a key that is not live in the table.
\<close>

lemma live_keys_distinct_iff:
  "live_keys_distinct xs \<longleftrightarrow>
     (\<forall>i<length xs. \<forall>j<length xs. slot_state (xs ! i) = INSERTED \<and> slot_state (xs ! j) = INSERTED
          \<and> slot_key (xs ! i) = slot_key (xs ! j) \<longrightarrow> i = j)
     \<and> (\<forall>i<length xs. slot_state (xs ! i) = INSERTED \<longrightarrow> slot_key (xs ! i) \<noteq> None)"
proof
  assume l: "live_keys_distinct xs"
  then have "distinct (map slot_key (filter (\<lambda>s. slot_state s = INSERTED) xs))"
    by (simp add: live_keys_distinct_def)
  from distinct_map_filter_nth[OF this] l
  show "(\<forall>i<length xs. \<forall>j<length xs. slot_state (xs ! i) = INSERTED \<and> slot_state (xs ! j) = INSERTED
          \<and> slot_key (xs ! i) = slot_key (xs ! j) \<longrightarrow> i = j)
     \<and> (\<forall>i<length xs. slot_state (xs ! i) = INSERTED \<longrightarrow> slot_key (xs ! i) \<noteq> None)"
    by (auto simp: live_keys_distinct_def)
next
  assume r: "(\<forall>i<length xs. \<forall>j<length xs. slot_state (xs ! i) = INSERTED \<and> slot_state (xs ! j) = INSERTED
          \<and> slot_key (xs ! i) = slot_key (xs ! j) \<longrightarrow> i = j)
     \<and> (\<forall>i<length xs. slot_state (xs ! i) = INSERTED \<longrightarrow> slot_key (xs ! i) \<noteq> None)"
  then have "distinct (map slot_key (filter (\<lambda>s. slot_state s = INSERTED) xs))"
    by (intro distinct_map_filterI) blast
  moreover from r have "\<forall>s\<in>set xs. slot_state s = INSERTED \<longrightarrow> slot_key s \<noteq> None"
    by (auto simp: in_set_conv_nth)
  ultimately show "live_keys_distinct xs"
    by (simp add: live_keys_distinct_def)
qed

lemma live_keys_distinctI:
  assumes "\<And>a b. a < length ys \<Longrightarrow> b < length ys \<Longrightarrow> slot_state (ys ! a) = INSERTED
             \<Longrightarrow> slot_state (ys ! b) = INSERTED \<Longrightarrow> slot_key (ys ! a) = slot_key (ys ! b) \<Longrightarrow> a = b"
    and "\<And>a. a < length ys \<Longrightarrow> slot_state (ys ! a) = INSERTED \<Longrightarrow> slot_key (ys ! a) \<noteq> None"
  shows "live_keys_distinct ys"
  unfolding live_keys_distinct_iff using assms by blast

lemma live_keys_distinctD:
  assumes "live_keys_distinct xs"
  shows "a < length xs \<Longrightarrow> b < length xs \<Longrightarrow> slot_state (xs ! a) = INSERTED
             \<Longrightarrow> slot_state (xs ! b) = INSERTED \<Longrightarrow> slot_key (xs ! a) = slot_key (xs ! b) \<Longrightarrow> a = b"
    and "a < length xs \<Longrightarrow> slot_state (xs ! a) = INSERTED \<Longrightarrow> slot_key (xs ! a) \<noteq> None"
  using assms unfolding live_keys_distinct_iff by blast+

lemma live_keys_distinct_tombstone:
  assumes "live_keys_distinct xs"
  shows "live_keys_distinct (xs[i := \<lparr>slot_key = None, slot_value = None, slot_state = DELETED\<rparr>])"
proof (rule live_keys_distinctI)
  let ?ys = "xs[i := \<lparr>slot_key = None, slot_value = None, slot_state = DELETED\<rparr>]"
  have same: "?ys ! a = xs ! a \<and> a < length xs"
    if "a < length ?ys" "slot_state (?ys ! a) = INSERTED" for a
    using that by (cases "a = i") simp_all
  fix a b
  assume a: "a < length ?ys" "slot_state (?ys ! a) = INSERTED"
  from same[OF a] a live_keys_distinctD(2)[OF assms, of a] show "slot_key (?ys ! a) \<noteq> None"
    by simp
  assume b: "b < length ?ys" "slot_state (?ys ! b) = INSERTED"
    and "slot_key (?ys ! a) = slot_key (?ys ! b)"
  with same[OF a] same[OF b] a live_keys_distinctD(1)[OF assms, of a b] show "a = b"
    by simp
qed

lemma live_keys_distinct_update:
  assumes "live_keys_distinct xs"
  shows "live_keys_distinct (xs[i := (xs ! i)\<lparr>slot_value := v\<rparr>])"
proof (rule live_keys_distinctI)
  let ?ys = "xs[i := (xs ! i)\<lparr>slot_value := v\<rparr>]"
  have st: "slot_state (?ys ! a) = slot_state (xs ! a)" if "a < length xs" for a
    using that by (cases "a = i") simp_all
  have ky: "slot_key (?ys ! a) = slot_key (xs ! a)" if "a < length xs" for a
    using that by (cases "a = i") simp_all
  fix a b
  assume a: "a < length ?ys" "slot_state (?ys ! a) = INSERTED"
  then have a': "a < length xs" "slot_state (xs ! a) = INSERTED"
    using st[of a] by simp_all
  from live_keys_distinctD(2)[OF assms a'] ky[OF a'(1)] show "slot_key (?ys ! a) \<noteq> None"
    by simp
  assume b: "b < length ?ys" "slot_state (?ys ! b) = INSERTED"
    and eq: "slot_key (?ys ! a) = slot_key (?ys ! b)"
  from b have b': "b < length xs" "slot_state (xs ! b) = INSERTED"
    using st[of b] by simp_all
  from eq have "slot_key (xs ! a) = slot_key (xs ! b)"
    unfolding ky[OF a'(1)] ky[OF b'(1)] .
  with live_keys_distinctD(1)[OF assms a'(1) b'(1) a'(2) b'(2)] show "a = b" .
qed

lemma live_keys_distinct_claim:
  assumes "live_keys_distinct xs"
    and "\<And>j. j < length xs \<Longrightarrow> j \<noteq> i \<Longrightarrow> slot_state (xs ! j) = INSERTED \<Longrightarrow> slot_key (xs ! j) \<noteq> Some k"
  shows "live_keys_distinct (xs[i := \<lparr>slot_key = Some k, slot_value = v, slot_state = INSERTED\<rparr>])"
proof (rule live_keys_distinctI)
  let ?ys = "xs[i := \<lparr>slot_key = Some k, slot_value = v, slot_state = INSERTED\<rparr>]"
  fix a b
  assume a: "a < length ?ys" "slot_state (?ys ! a) = INSERTED"
  show "slot_key (?ys ! a) \<noteq> None"
    using a live_keys_distinctD(2)[OF assms(1), of a] by (cases "a = i") simp_all
  assume b: "b < length ?ys" "slot_state (?ys ! b) = INSERTED"
    and eq: "slot_key (?ys ! a) = slot_key (?ys ! b)"
  show "a = b"
  proof (cases "a = i")
    case ai: True
    show ?thesis
    proof (cases "b = i")
      case True
      with ai show ?thesis by simp
    next
      case False
      with ai a b eq assms(2)[of b] show ?thesis by simp
    qed
  next
    case ai: False
    show ?thesis
    proof (cases "b = i")
      case True
      with ai a b eq assms(2)[of a] show ?thesis by simp
    next
      case False
      with ai a b eq live_keys_distinctD(1)[OF assms(1), of a b] show ?thesis by simp
    qed
  qed
qed

lemma remove_keeps_live_keys_distinct:
  assumes "hm_slots hm = Some xs" and "live_keys_distinct xs"
    and "hashmap_remove H hm key = Some (Inr (hm', n))"
  shows "\<exists>ys. hm_slots hm' = Some ys \<and> length ys = length xs \<and> live_keys_distinct ys"
proof -
  from assms(1,3) obtain i0 where i0: "hash_key H key 0 (hm_capacity hm) = Inr i0"
    by (auto simp: hashmap_remove_def split: sum.splits)
  from assms(1,3) i0 obtain e where e: "probe H xs (hm_capacity hm) key 0 i0 = Some (Inr e)"
    by (auto simp: hashmap_remove_def split: option.splits sum.splits)
  show ?thesis
  proof (cases e)
    case (Match i)
    with assms(1,3) i0 e
    have "hm_slots hm' = Some (xs[i := \<lparr>slot_key = None, slot_value = None, slot_state = DELETED\<rparr>])"
      by (auto simp: hashmap_remove_def)
    with live_keys_distinct_tombstone[OF assms(2), of i] show ?thesis by simp
  next
    case (Stop i)
    with assms i0 e show ?thesis
      by (auto simp: hashmap_remove_def)
  qed
qed


lemma insert_keeps_live_keys_distinct:
  assumes slots: "hm_slots hm = Some xs" and len: "length xs = hm_capacity hm"
    and lkd: "live_keys_distinct xs"
    and fresh: "\<And>j. j < length xs \<Longrightarrow> slot_state (xs ! j) = INSERTED \<Longrightarrow> slot_key (xs ! j) \<noteq> Some k"
    and ret: "hashmap_insert H True True hm (Some k) (Some v) = Some (Inr (hm', res))"
  shows "\<exists>ys. hm_slots hm' = Some ys \<and> length ys = hm_capacity hm' \<and> live_keys_distinct ys"
proof -
  let ?E = "if hm_capacity hm div HT_EXPANSION_FACTOR \<le> hm_size hm
            then hashtable_expand H True hm else Some (Inr (hm, hm_capacity hm))"
  have unfold: "hashmap_insert H True True hm (Some k) (Some v) =
      (case ?E of
         None \<Rightarrow> None
       | Some (Inl e) \<Rightarrow> Some (Inl e)
       | Some (Inr (hm1, capacity)) \<Rightarrow>
           (case hashtable_slot_insert H True (hm_slots hm1) capacity (Some k) (Some v) 0 of
              None \<Rightarrow> None
            | Some (Inl e) \<Rightarrow> Some (Inl e)
            | Some (Inr (slots', result)) \<Rightarrow>
                if result = None then Some (Inr (hm1\<lparr>hm_slots := slots'\<rparr>, None))
                else Some (Inr (hm1\<lparr>hm_slots := slots',
                                    hm_size := (hm_size hm1 + 1) mod SIZE_MAX1\<rparr>, result))))"
    using slots by (simp add: hashmap_insert_def)
  obtain hm1 c where E: "?E = Some (Inr (hm1, c))"
  proof (cases ?E)
    case None
    with unfold ret show ?thesis by simp
  next
    case (Some a)
    show ?thesis
    proof (cases a)
      case (Inl e)
      with Some unfold ret show ?thesis by simp
    next
      case (Inr p)
      with Some that show ?thesis by (cases p) simp
    qed
  qed
  obtain ys where ys: "hm_slots hm1 = Some ys" "length ys = hm_capacity hm1" "c = hm_capacity hm1"
    and inv: "(chained H ys c \<and> tidy ys) \<or> (ys = xs \<and> hm1 = hm)"
  proof (cases "hm_capacity hm div HT_EXPANSION_FACTOR \<le> hm_size hm")
    case True
    with E expand_rehashed[OF slots len lkd, of H hm1 c] that show ?thesis by auto
  next
    case False
    with E slots len that show ?thesis by auto
  qed
  let ?S = "hashtable_slot_insert H True (Some ys) c (Some k) (Some v) 0"
  from unfold E ret ys(1) have S: "(case ?S of
              None \<Rightarrow> None
            | Some (Inl e) \<Rightarrow> Some (Inl e)
            | Some (Inr (slots', result)) \<Rightarrow>
                if result = None then Some (Inr (hm1\<lparr>hm_slots := slots'\<rparr>, None))
                else Some (Inr (hm1\<lparr>hm_slots := slots',
                                    hm_size := (hm_size hm1 + 1) mod SIZE_MAX1\<rparr>, result)))
        = Some (Inr (hm', res))"
    by simp
  obtain slots' result where si: "?S = Some (Inr (slots', result))"
  proof (cases ?S)
    case None
    with S show ?thesis by simp
  next
    case (Some a)
    show ?thesis
    proof (cases a)
      case (Inl e)
      with Some S show ?thesis by simp
    next
      case (Inr p)
      with Some that show ?thesis by (cases p) simp
    qed
  qed
  have "\<exists>ys2. slots' = Some ys2 \<and> length ys2 = length ys \<and> live_keys_distinct ys2"
    using inv
  proof
    assume "chained H ys c \<and> tidy ys"
    with slot_insert_chained[OF _ _ si] chained_tidy_live_distinct[of H _ c] show ?thesis
      by blast
  next
    assume same: "ys = xs \<and> hm1 = hm"
    from si obtain i0 where i0: "hash_key H (Some k) 0 c = Inr i0"
      by (auto simp: hashtable_slot_insert_def split: sum.splits)
    from si i0 obtain e where e: "probe H ys c (Some k) 0 i0 = Some (Inr e)"
      by (auto simp: hashtable_slot_insert_def split: option.splits sum.splits)
    show ?thesis
    proof (cases e)
      case (Match i)
      with si i0 e have "slots' = Some (ys[i := (ys ! i)\<lparr>slot_value := Some v\<rparr>])"
        by (auto simp: hashtable_slot_insert_def)
      with same live_keys_distinct_update[OF lkd, of i "Some v"] show ?thesis by simp
    next
      case (Stop i)
      with si i0 e
      have "slots' = Some (ys[i := \<lparr>slot_key = Some k, slot_value = Some v, slot_state = INSERTED\<rparr>])"
        by (auto simp: hashtable_slot_insert_def)
      with same live_keys_distinct_claim[OF lkd, of i k "Some v"] fresh show ?thesis by simp
    qed
  qed
  then obtain ys2 where ys2: "slots' = Some ys2" "length ys2 = length ys" "live_keys_distinct ys2"
    by blast
  from S si have "hm_slots hm' = slots' \<and> hm_capacity hm' = hm_capacity hm1"
    by (auto split: if_splits)
  with ys2 ys(2) show ?thesis by simp
qed

section \<open>Probe sequences of one slot\<close>

text \<open>
  If every round of a key's probe sequence lands on the same slot, and that slot holds
  another key, the probing loop does not return.
\<close>

lemma probe_fixed_point_no_result:
  assumes "probe H xs cap key c i = Some y"
  shows "\<not> (key = Some k \<and> i < length xs \<and> occupied (xs ! i) \<and> slot_key (xs ! i) \<noteq> Some k
            \<and> (\<forall>r. hash_key H (Some k) r cap = Inr i))"
proof (rule probe.raw_induct[where P = "\<lambda>H xs cap key c i y.
      \<not> (key = Some k \<and> i < length xs \<and> occupied (xs ! i) \<and> slot_key (xs ! i) \<noteq> Some k
            \<and> (\<forall>r. hash_key H (Some k) r cap = Inr i))", OF _ assms], goal_cases)
  case (1 f H xs cap key c i y)
  show ?case
  proof
    assume a: "key = Some k \<and> i < length xs \<and> occupied (xs ! i) \<and> slot_key (xs ! i) \<noteq> Some k
            \<and> (\<forall>r. hash_key H (Some k) r cap = Inr i)"
    with 1(2) have "f H xs cap key ((c + 1) mod SIZE_MAX1) i = Some y"
      by simp
    from 1(1)[OF this] a show False
      by simp
  qed
qed

lemma probe_fixed_point_diverges:
  assumes "i < length xs" and "occupied (xs ! i)" and "slot_key (xs ! i) \<noteq> Some k"
    and "\<And>r. hash_key H (Some k) r cap = Inr i"
  shows "probe H xs cap (Some k) c i = None"
proof (cases "probe H xs cap (Some k) c i")
  case None
  then show ?thesis .
next
  case (Some y)
  from probe_fixed_point_no_result[OF this, of k] assms show ?thesis
    by simp
qed

text \<open>
  Below capacity 37 the subtraction \<open>m - HT_PRIME\<close> wraps around, the second hash is
  \<open>37 + k\<close>, and a key whose \<open>37 + k\<close> is a multiple of the capacity has a probe
  sequence of one slot.
\<close>

lemma hash_key_small_capacity:
  assumes "0 < m" and "m < HT_PRIME"
  shows "hash_key H (Some s) r m =
     Inr (((unat (H s) mod m + (r * (HT_PRIME + unat (H s))) mod SIZE_MAX1) mod SIZE_MAX1) mod m)"
proof -
  let ?k = "unat (H s)"
  have k: "?k < 2 ^ 32"
    using unsigned_less[of "H s"] by simp
  have d: "(m + SIZE_MAX1 - HT_PRIME) mod SIZE_MAX1 = m + SIZE_MAX1 - HT_PRIME"
    using assms by (simp add: SIZE_MAX1_def HT_PRIME_def)
  have kd: "?k mod (m + SIZE_MAX1 - HT_PRIME) = ?k"
    using k assms by (simp add: SIZE_MAX1_def HT_PRIME_def)
  have h2: "(HT_PRIME + ?k) mod SIZE_MAX1 = HT_PRIME + ?k"
    using k by (simp add: SIZE_MAX1_def HT_PRIME_def)
  have d0: "m + SIZE_MAX1 - HT_PRIME \<noteq> 0"
    using assms by (simp add: SIZE_MAX1_def HT_PRIME_def)
  show ?thesis
    using assms(1) d0 by (simp add: hash_key_def Let_def d kd h2)
qed

lemma hash_key_degenerate:
  assumes "0 < m" and "m < HT_PRIME" and "m dvd SIZE_MAX1" and "m dvd HT_PRIME + unat (H s)"
  shows "hash_key H (Some s) r m = Inr (unat (H s) mod m)"
proof -
  let ?k = "unat (H s)"
  let ?h2 = "HT_PRIME + ?k"
  have "((?k mod m + (r * ?h2) mod SIZE_MAX1) mod SIZE_MAX1) mod m
          = (?k mod m + (r * ?h2) mod SIZE_MAX1) mod m"
    using assms(3) by (rule mod_mod_cancel)
  also have "\<dots> = (?k mod m + ((r * ?h2) mod SIZE_MAX1) mod m) mod m"
    by (simp add: mod_simps)
  also have "((r * ?h2) mod SIZE_MAX1) mod m = (r * ?h2) mod m"
    using assms(3) by (rule mod_mod_cancel)
  also have "(r * ?h2) mod m = 0"
    using assms(4) by simp
  finally have "((?k mod m + (r * ?h2) mod SIZE_MAX1) mod SIZE_MAX1) mod m = ?k mod m"
    by simp
  with hash_key_small_capacity[OF assms(1,2), of H s r] show ?thesis
    by simp
qed

section \<open>Claims C1 and C2: removal cuts probe chains\<close>

text \<open>
  What a removal does, for any hash function: the slot that held the key gets a \<open>NULL\<close>
  key, and from then on every key whose probe sequence starts at that slot is reported
  absent, wherever it is stored.
\<close>

lemma get_stops_at_null_key:
  assumes "hm_slots hm = Some xs" and "hash_key H (Some k) 0 (hm_capacity hm) = Inr i"
    and "i < length xs" and "slot_key (xs ! i) = None"
  shows "hashmap_get H hm (Some k) = Some (Inr None)"
proof -
  have "probe H xs (hm_capacity hm) (Some k) 0 i = Some (Inr (Stop i))"
    using assms(3,4) by (subst probe.simps) (simp add: occupied_def)
  with assms(1,2) show ?thesis
    by (simp add: hashmap_get_def)
qed

lemma remove_leaves_null_key:
  assumes "hm_slots hm = Some xs" and "hashmap_remove H hm key = Some (Inr (hm', 1))"
  shows "\<exists>i<length xs. occupied (xs ! i) \<and> slot_key (xs ! i) = key
           \<and> hm' = hm\<lparr>hm_slots := Some (xs[i := \<lparr>slot_key = None, slot_value = None,
                                                  slot_state = DELETED\<rparr>]),
                       hm_size := (hm_size hm + SIZE_MAX1 - 1) mod SIZE_MAX1\<rparr>"
proof -
  from assms obtain i0 where i0: "hash_key H key 0 (hm_capacity hm) = Inr i0"
    by (auto simp: hashmap_remove_def split: sum.splits)
  from assms i0 obtain i where p: "probe H xs (hm_capacity hm) key 0 i0 = Some (Inr (Match i))"
    and hm': "hm' = hm\<lparr>hm_slots := Some (xs[i := \<lparr>slot_key = None, slot_value = None,
                                                  slot_state = DELETED\<rparr>]),
                       hm_size := (hm_size hm + SIZE_MAX1 - 1) mod SIZE_MAX1\<rparr>"
    by (auto simp: hashmap_remove_def split: option.splits sum.splits probe_exit.splits)
  obtain k where k: "key = Some k"
  proof (cases key)
    case None
    with p have False
      by (subst (asm) probe.simps) (simp split: if_splits)
    then show ?thesis ..
  next
    case (Some k)
    with that show ?thesis .
  qed
  from probe_0_result[OF p[unfolded k] i0[unfolded k]] k
  have "reaches H xs (hm_capacity hm) k i" "occupied (xs ! i)" "slot_key (xs ! i) = key"
    by auto
  then show ?thesis
    using hm' by (auto simp: reaches_def)
qed

lemma removal_hides_keys_behind:
  assumes "hm_slots hm = Some xs" and "hashmap_remove H hm key = Some (Inr (hm', 1))"
  shows "\<exists>i<length xs. slot_key (xs ! i) = key
           \<and> (\<forall>k'. hash_key H (Some k') 0 (hm_capacity hm') = Inr i
                  \<longrightarrow> hashmap_get H hm' (Some k') = Some (Inr None))"
proof -
  from remove_leaves_null_key[OF assms] obtain i where i: "i < length xs" "slot_key (xs ! i) = key"
    and hm': "hm' = hm\<lparr>hm_slots := Some (xs[i := \<lparr>slot_key = None, slot_value = None,
                                                  slot_state = DELETED\<rparr>]),
                       hm_size := (hm_size hm + SIZE_MAX1 - 1) mod SIZE_MAX1\<rparr>"
    by blast
  have "hashmap_get H hm' (Some k') = Some (Inr None)"
    if "hash_key H (Some k') 0 (hm_capacity hm') = Inr i" for k'
    using that i(1) by (intro get_stops_at_null_key[of hm' "xs[i := \<lparr>slot_key = None, slot_value = None,
                                                  slot_state = DELETED\<rparr>]" H k' i]) (simp_all add: hm')
  with i show ?thesis by blast
qed

text \<open>
  Claim C1 says that a key that was inserted and not removed is found by \<open>get\<close> after any
  sequence of operations. After \<open>create(8)\<close>, \<open>insert("a", 1)\<close>, \<open>insert("i", 2)\<close> and
  \<open>remove("a")\<close>, the key \<open>"i"\<close> was inserted, was found before the removal, was never
  removed, and \<open>hashmap_get\<close> returns \<open>NULL\<close> for it.
\<close>

theorem get_after_foreign_remove_absent:
  "hashmap_create True True 8 = Inr (Some scenario_t0)
   \<and> hashmap_insert fnv32a_hash_str True True scenario_t0 (Some ''a'') (Some 1)
       = Some (Inr (scenario_t1, Some ''a''))
   \<and> hashmap_insert fnv32a_hash_str True True scenario_t1 (Some ''i'') (Some 2)
       = Some (Inr (collide_t2, Some ''i''))
   \<and> hashmap_get fnv32a_hash_str collide_t2 (Some ''i'') = Some (Inr (Some 2))
   \<and> hashmap_remove fnv32a_hash_str collide_t2 (Some ''a'') = Some (Inr (collide_t3, 1))
   \<and> hashmap_get fnv32a_hash_str collide_t3 (Some ''i'') = Some (Inr None)"
  using create_8 insert_a insert_i get_i_t2 remove_a_t2 get_i_t3 by simp

text \<open>
  Claim C2 says that the tombstone left by a removal keeps every other key reachable. After
  \<open>create(8)\<close>, \<open>insert("b", 2)\<close> and \<open>insert("j", 7)\<close>, the key \<open>"j"\<close> sits in slot 7,
  reached through slot 5 where \<open>"b"\<close> is. \<open>remove("b")\<close> marks slot 5 \<open>DELETED\<close> and sets
  its key to \<open>NULL\<close>; the probing loop stops at a slot whose key is \<open>NULL\<close>, so it stops
  at the tombstone as it would at an empty slot: \<open>"j"\<close> is still stored in slot 7 and
  \<open>hashmap_get\<close> returns \<open>NULL\<close> for it.
\<close>

theorem tombstone_stops_probe:
  "hashmap_create True True 8 = Inr (Some scenario_t0)
   \<and> hashmap_insert fnv32a_hash_str True True scenario_t0 (Some ''b'') (Some 2)
       = Some (Inr (chain_t1, Some ''b''))
   \<and> hashmap_insert fnv32a_hash_str True True chain_t1 (Some ''j'') (Some 7)
       = Some (Inr (chain_t2, Some ''j''))
   \<and> hashmap_get fnv32a_hash_str chain_t2 (Some ''j'') = Some (Inr (Some 7))
   \<and> hashmap_remove fnv32a_hash_str chain_t2 (Some ''b'') = Some (Inr (chain_t3, 1))
   \<and> hm_slots chain_t3 = Some [zero_slot, zero_slot, zero_slot, zero_slot, zero_slot,
         \<lparr>slot_key = None, slot_value = None, slot_state = DELETED\<rparr>, zero_slot, live ''j'' 7]
   \<and> hashmap_get fnv32a_hash_str chain_t3 (Some ''j'') = Some (Inr None)"
  using create_8 insert_b_first insert_j get_j_t2 remove_b_chain get_j_t3
  by (simp add: chain_t3_def table_def tombstone_def)

section \<open>Claim C3: size counts calls, not keys\<close>

text \<open>Every insert that returns a key adds one to \<open>size\<close>, whether it placed or updated.\<close>

lemma expand_keeps_size:
  assumes "hashtable_expand H calloc_ok hm = Some (Inr (hm1, c))"
  shows "hm_size hm1 = hm_size hm"
proof (cases "rehash H (hm_slots hm) (hm_capacity hm)
         ((hm_capacity hm * HT_EXPANSION_FACTOR) mod SIZE_MAX1) 0
         (if calloc_ok then Some (replicate ((hm_capacity hm * HT_EXPANSION_FACTOR) mod SIZE_MAX1) zero_slot)
          else None)")
  case None
  with assms show ?thesis by (simp add: hashtable_expand_def Let_def)
next
  case (Some a)
  with assms show ?thesis by (cases a) (auto simp: hashtable_expand_def Let_def)
qed

lemma insert_increments_size:
  assumes "hashmap_insert H calloc_ok strdup_ok hm key val = Some (Inr (hm', Some r))"
  shows "hm_size hm' = (hm_size hm + 1) mod SIZE_MAX1"
proof -
  let ?E = "if hm_capacity hm div HT_EXPANSION_FACTOR \<le> hm_size hm
            then hashtable_expand H calloc_ok hm else Some (Inr (hm, hm_capacity hm))"
  have ok: "\<not> (hm_slots hm = None \<or> val = None)"
  proof
    assume "hm_slots hm = None \<or> val = None"
    then have "hashmap_insert H calloc_ok strdup_ok hm key val = Some (Inr (hm, None))"
      unfolding hashmap_insert_def by (simp only: if_True)
    with assms show False by simp
  qed
  then have unfold: "hashmap_insert H calloc_ok strdup_ok hm key val =
      (case ?E of
         None \<Rightarrow> None
       | Some (Inl e) \<Rightarrow> Some (Inl e)
       | Some (Inr (hm1, capacity)) \<Rightarrow>
           (case hashtable_slot_insert H strdup_ok (hm_slots hm1) capacity key val 0 of
              None \<Rightarrow> None
            | Some (Inl e) \<Rightarrow> Some (Inl e)
            | Some (Inr (slots', result)) \<Rightarrow>
                if result = None then Some (Inr (hm1\<lparr>hm_slots := slots'\<rparr>, None))
                else Some (Inr (hm1\<lparr>hm_slots := slots',
                                    hm_size := (hm_size hm1 + 1) mod SIZE_MAX1\<rparr>, result))))"
    unfolding hashmap_insert_def by (simp only: if_False)
  obtain hm1 c where E: "?E = Some (Inr (hm1, c))"
  proof (cases ?E)
    case None
    with unfold assms show ?thesis by simp
  next
    case (Some a)
    show ?thesis
    proof (cases a)
      case (Inl e)
      with Some unfold assms show ?thesis by simp
    next
      case (Inr p)
      with Some that show ?thesis by (cases p) simp
    qed
  qed
  then have size1: "hm_size hm1 = hm_size hm"
    using expand_keeps_size[of H calloc_ok hm hm1 c] by (simp split: if_splits)
  let ?S = "hashtable_slot_insert H strdup_ok (hm_slots hm1) c key val 0"
  from unfold E assms have S: "(case ?S of
              None \<Rightarrow> None
            | Some (Inl e) \<Rightarrow> Some (Inl e)
            | Some (Inr (slots', result)) \<Rightarrow>
                if result = None then Some (Inr (hm1\<lparr>hm_slots := slots'\<rparr>, None))
                else Some (Inr (hm1\<lparr>hm_slots := slots',
                                    hm_size := (hm_size hm1 + 1) mod SIZE_MAX1\<rparr>, result)))
        = Some (Inr (hm', Some r))"
    by simp
  show ?thesis
  proof (cases ?S)
    case None
    with S show ?thesis by simp
  next
    case (Some a)
    show ?thesis
    proof (cases a)
      case (Inl e)
      with Some S show ?thesis by simp
    next
      case (Inr p)
      obtain slots' result where p: "p = (slots', result)" by (cases p)
      with Inr Some S size1 show ?thesis by (auto split: if_splits)
    qed
  qed
qed

text \<open>
  Claim C3 says that storing a key that is already present leaves \<open>size\<close> unchanged.
  After \<open>create(8)\<close> and \<open>insert("a", 1)\<close> the size is 1; \<open>insert("a", 2)\<close> overwrites
  the value in slot 4 and the size becomes 2, with one key in the table.
\<close>

theorem update_increments_size:
  "hashmap_create True True 8 = Inr (Some scenario_t0)
   \<and> hashmap_insert fnv32a_hash_str True True scenario_t0 (Some ''a'') (Some 1)
       = Some (Inr (scenario_t1, Some ''a''))
   \<and> hm_size scenario_t1 = 1
   \<and> hashmap_insert fnv32a_hash_str True True scenario_t1 (Some ''a'') (Some 2)
       = Some (Inr (update_t2, Some ''a''))
   \<and> hm_slots update_t2 = Some [zero_slot, zero_slot, zero_slot, zero_slot,
         live ''a'' 2, zero_slot, zero_slot, zero_slot]
   \<and> hm_size update_t2 = 2"
  using create_8 insert_a insert_a_again
  by (simp add: scenario_t1_def update_t2_def table_def)

section \<open>Claim C4: resize\<close>

text \<open>
  What does hold of a resize, for any hash function. Take a table whose array has
  \<open>capacity\<close> slots, whose live slots hold pairwise distinct keys, and whose doubled
  capacity is a \<open>size_t\<close>. If an insert of a non-null value finds the size at or above
  half the capacity, so that it resizes, and if it returns, then: the capacity has doubled;
  the inserted key is found with its value; every other entry that was live before is found
  by \<open>hashmap_get\<close> with the value it had; and the rehashed array consists of zeroed slots
  and exactly the old \<open>INSERTED\<close> slots. Neither condition is guaranteed by the code: the
  theorem at the end of this section shows a table with a key live twice and an insert that
  does not return.
\<close>

lemma resize_returning_preserves_entries:
  assumes slots: "hm_slots hm = Some xs" and len: "length xs = hm_capacity hm"
    and fits: "hm_capacity hm * HT_EXPANSION_FACTOR < SIZE_MAX1"
    and lkd: "live_keys_distinct xs"
    and trigger: "hm_capacity hm div HT_EXPANSION_FACTOR \<le> hm_size hm"
    and val: "v \<noteq> None"
    and ret: "hashmap_insert H True True hm (Some k) v = Some (Inr (hm', res))"
  shows "hm_capacity hm' = 2 * hm_capacity hm
       \<and> hashmap_get H hm' (Some k) = Some (Inr v)
       \<and> (\<forall>j<length xs. slot_state (xs ! j) = INSERTED \<and> slot_key (xs ! j) \<noteq> Some k \<longrightarrow>
             hashmap_get H hm' (slot_key (xs ! j)) = Some (Inr (slot_value (xs ! j))))
       \<and> (\<exists>hm1 ys. hashtable_expand H True hm = Some (Inr (hm1, 2 * hm_capacity hm))
             \<and> hm_slots hm1 = Some ys \<and> length ys = 2 * hm_capacity hm
             \<and> hm_capacity hm1 = 2 * hm_capacity hm
             \<and> (\<forall>s\<in>set ys. s = zero_slot \<or> (slot_state s = INSERTED \<and> s \<in> set xs))
             \<and> (\<forall>s\<in>set xs. slot_state s = INSERTED \<longrightarrow> s \<in> set ys)
             \<and> (\<forall>j<length xs. slot_state (xs ! j) = INSERTED \<longrightarrow>
                   hashmap_get H hm1 (slot_key (xs ! j)) = Some (Inr (slot_value (xs ! j)))))"
proof -
  let ?n = "2 * hm_capacity hm"
  have unfold: "hashmap_insert H True True hm (Some k) v =
      (case hashtable_expand H True hm of
         None \<Rightarrow> None
       | Some (Inl e) \<Rightarrow> Some (Inl e)
       | Some (Inr (hm1, capacity)) \<Rightarrow>
           (case hashtable_slot_insert H True (hm_slots hm1) capacity (Some k) v 0 of
              None \<Rightarrow> None
            | Some (Inl e) \<Rightarrow> Some (Inl e)
            | Some (Inr (slots', result)) \<Rightarrow>
                if result = None then Some (Inr (hm1\<lparr>hm_slots := slots'\<rparr>, None))
                else Some (Inr (hm1\<lparr>hm_slots := slots',
                                    hm_size := (hm_size hm1 + 1) mod SIZE_MAX1\<rparr>, result))))"
  proof -
    from val obtain w where w: "v = Some w" by auto
    show ?thesis
      unfolding hashmap_insert_def w using slots trigger by simp
  qed
  obtain hm1 c where ex: "hashtable_expand H True hm = Some (Inr (hm1, c))"
  proof (cases "hashtable_expand H True hm")
    case None
    with unfold ret show ?thesis by simp
  next
    case (Some a)
    show ?thesis
    proof (cases a)
      case (Inl e)
      with Some unfold ret show ?thesis by simp
    next
      case (Inr p)
      with Some that show ?thesis by (cases p) simp
    qed
  qed
  from expand_chained[OF slots len fits lkd ex]
  obtain ys where c: "c = ?n" and cap1: "hm_capacity hm1 = ?n"
    and ys: "hm_slots hm1 = Some ys" "length ys = ?n" "chained H ys ?n" "tidy ys"
    and h1: "\<forall>k v. holds ys k v \<longleftrightarrow> (\<exists>j. live_entry xs j k v)"
    by auto
  have live_holds: "holds ys kj (slot_value (xs ! j))"
    if "j < length xs" "slot_state (xs ! j) = INSERTED" "slot_key (xs ! j) = Some kj" for j kj
    using that h1 unfolding live_entry_def by blast
  have get1: "hashmap_get H hm1 (slot_key (xs ! j)) = Some (Inr (slot_value (xs ! j)))"
    if "j < length xs" "slot_state (xs ! j) = INSERTED" for j
  proof -
    from live_slot_has_key[OF lkd that] obtain kj where kj: "slot_key (xs ! j) = Some kj"
      by blast
    from hashmap_get_holds[OF ys(1), of H kj] ys(3) cap1 live_holds[OF that kj] kj show ?thesis
      by simp
  qed
  obtain slots' result where si: "hashtable_slot_insert H True (Some ys) ?n (Some k) v 0 = Some (Inr (slots', result))"
  proof (cases "hashtable_slot_insert H True (Some ys) ?n (Some k) v 0")
    case None
    with unfold ret ex ys(1) c show ?thesis by simp
  next
    case (Some a)
    show ?thesis
    proof (cases a)
      case (Inl e)
      with Some unfold ret ex ys(1) c show ?thesis by simp
    next
      case (Inr p)
      with Some that show ?thesis by (cases p) simp
    qed
  qed
  from slot_insert_chained[OF ys(3,4) si]
  obtain ys2 where ys2: "slots' = Some ys2" "result = Some k" "chained H ys2 ?n"
    and h2: "\<forall>k' v'. holds ys2 k' v' \<longleftrightarrow> (if k' = k then v' = v else holds ys k' v')"
    by auto
  from unfold ret ex ys(1) c si ys2(1,2)
  have hm': "hm' = hm1\<lparr>hm_slots := Some ys2, hm_size := (hm_size hm1 + 1) mod SIZE_MAX1\<rparr>"
    by simp
  then have s2: "hm_slots hm' = Some ys2" and cap2: "hm_capacity hm' = ?n"
    using cap1 by simp_all
  from h2 have "holds ys2 k v" by simp
  with hashmap_get_holds[OF s2, of H k v] ys2(3) cap2
  have getk: "hashmap_get H hm' (Some k) = Some (Inr v)"
    by simp
  have get2: "hashmap_get H hm' (slot_key (xs ! j)) = Some (Inr (slot_value (xs ! j)))"
    if "j < length xs" "slot_state (xs ! j) = INSERTED" "slot_key (xs ! j) \<noteq> Some k" for j
  proof -
    from live_slot_has_key[OF lkd that(1,2)] obtain kj where kj: "slot_key (xs ! j) = Some kj"
      by blast
    with that(3) have "kj \<noteq> k" by simp
    with h2 live_holds[OF that(1,2) kj] have "holds ys2 kj (slot_value (xs ! j))" by simp
    with hashmap_get_holds[OF s2, of H kj] ys2(3) cap2 kj show ?thesis
      by simp
  qed
  from rehashed_slots[OF ys(4) lkd h1] ex c ys(1,2) cap1 get1 cap2 getk get2
  show ?thesis by blast
qed


lemma resize_returning_preserves_entries_example:
  "hm_slots scenario_t4 = Some [zero_slot, zero_slot, live ''c'' 3, live ''d'' 4,
                                live ''a'' 1, live ''b'' 2, zero_slot, zero_slot]
   \<and> length [zero_slot, zero_slot, live ''c'' (3::nat), live ''d'' 4,
              live ''a'' 1, live ''b'' 2, zero_slot, zero_slot] = hm_capacity scenario_t4
   \<and> hm_capacity scenario_t4 * HT_EXPANSION_FACTOR < SIZE_MAX1
   \<and> live_keys_distinct [zero_slot, zero_slot, live ''c'' (3::nat), live ''d'' 4,
                          live ''a'' 1, live ''b'' 2, zero_slot, zero_slot]
   \<and> hm_capacity scenario_t4 div HT_EXPANSION_FACTOR \<le> hm_size scenario_t4
   \<and> hashmap_insert fnv32a_hash_str True True scenario_t4 (Some ''e'') (Some 5)
       = Some (Inr (grown_t5, Some ''e''))
   \<and> hm_capacity grown_t5 = 2 * hm_capacity scenario_t4
   \<and> hashmap_get fnv32a_hash_str grown_t5 (Some ''e'') = Some (Inr (Some 5))
   \<and> hashmap_get fnv32a_hash_str grown_t5 (Some ''a'') = Some (Inr (Some 1))
   \<and> hashmap_get fnv32a_hash_str grown_t5 (Some ''b'') = Some (Inr (Some 2))
   \<and> hashmap_get fnv32a_hash_str grown_t5 (Some ''c'') = Some (Inr (Some 3))
   \<and> hashmap_get fnv32a_hash_str grown_t5 (Some ''d'') = Some (Inr (Some 4))"
proof -
  let ?xs = "[zero_slot, zero_slot, live ''c'' (3::nat), live ''d'' 4,
              live ''a'' 1, live ''b'' 2, zero_slot, zero_slot]"
  have h1: "hm_slots scenario_t4 = Some ?xs"
    by (simp add: scenario_t4_def table_def)
  have h2: "length ?xs = hm_capacity scenario_t4"
    by (simp add: scenario_t4_def table_def)
  have h3: "hm_capacity scenario_t4 * HT_EXPANSION_FACTOR < SIZE_MAX1"
    by (simp add: scenario_t4_def table_def HT_EXPANSION_FACTOR_def SIZE_MAX1_def)
  have h4: "live_keys_distinct ?xs"
    by (simp add: live_keys_distinct_def live_def zero_slot_def)
  have h5: "hm_capacity scenario_t4 div HT_EXPANSION_FACTOR \<le> hm_size scenario_t4"
    by (simp add: scenario_t4_def table_def HT_EXPANSION_FACTOR_def)
  have h6: "Some (5::nat) \<noteq> None"
    by simp
  note r = resize_returning_preserves_entries[OF h1 h2 h3 h4 h5 h6 insert_e_grows]
  from r have cap: "hm_capacity grown_t5 = 2 * hm_capacity scenario_t4"
    and e: "hashmap_get fnv32a_hash_str grown_t5 (Some ''e'') = Some (Inr (Some 5))"
    and old: "\<forall>j<length ?xs. slot_state (?xs ! j) = INSERTED \<and> slot_key (?xs ! j) \<noteq> Some ''e'' \<longrightarrow>
      hashmap_get fnv32a_hash_str grown_t5 (slot_key (?xs ! j)) = Some (Inr (slot_value (?xs ! j)))"
    by blast+
  from old[rule_format, of 4] have a: "hashmap_get fnv32a_hash_str grown_t5 (Some ''a'') = Some (Inr (Some 1))"
    by (simp add: live_def)
  from old[rule_format, of 5] have b: "hashmap_get fnv32a_hash_str grown_t5 (Some ''b'') = Some (Inr (Some 2))"
    by (simp add: live_def)
  from old[rule_format, of 2] have c: "hashmap_get fnv32a_hash_str grown_t5 (Some ''c'') = Some (Inr (Some 3))"
    by (simp add: live_def)
  from old[rule_format, of 3] have d: "hashmap_get fnv32a_hash_str grown_t5 (Some ''d'') = Some (Inr (Some 4))"
    by (simp add: live_def)
  from h1 h2 h3 h4 h5 insert_e_grows cap e a b c d show ?thesis
    by blast
qed

lemma hash_key_ae_16: "hash_key fnv32a_hash_str (Some ''ae'') r 16 = Inr 11"
proof -
  have "hash_key fnv32a_hash_str (Some ''ae'') r 16 = Inr (unat (fnv32a_hash_str ''ae'') mod 16)"
    by (rule hash_key_degenerate) (simp_all add: HT_PRIME_def SIZE_MAX1_def fnv_ae)
  then show ?thesis
    by (simp add: fnv_ae)
qed

lemma slot_insert_ae_hangs:
  "hashtable_slot_insert fnv32a_hash_str True (hm_slots hang_t5) 16 (Some ''ae'') (Some 5) 0 = None"
proof -
  have "probe fnv32a_hash_str [zero_slot, zero_slot, live ''c'' 3, zero_slot,
                    zero_slot, live ''b'' 2, zero_slot, zero_slot,
                    zero_slot, zero_slot, zero_slot, live ''l'' (4::nat),
                    live ''a'' 1, zero_slot, zero_slot, zero_slot] 16 (Some ''ae'') 0 11 = None"
    by (rule probe_fixed_point_diverges) (simp_all add: occupied_def live_def hash_key_ae_16)
  then show ?thesis
    by (simp add: hashtable_slot_insert_def hang_t5_def table_def hash_key_ae_16)
qed

lemma insert_ae_hangs:
  "hashmap_insert fnv32a_hash_str True True hang_t4 (Some ''ae'') (Some 5) = None"
proof -
  have "hm_slots hang_t4 \<noteq> None" "hm_capacity hang_t4 div HT_EXPANSION_FACTOR \<le> hm_size hang_t4"
    by (simp_all add: hang_t4_def table_def HT_EXPANSION_FACTOR_def)
  then show ?thesis
    by (simp add: hashmap_insert_def expand_hang slot_insert_ae_hangs)
qed

text \<open>
  Claim C4 says that after a resize every key that was inserted and not removed is found
  with its stored value. Two histories on the code, allocations succeeding throughout.

  First: \<open>create(8)\<close>, \<open>insert("a", 1)\<close>, \<open>insert("i", 2)\<close>, \<open>remove("a")\<close>,
  \<open>insert("i", 3)\<close>, \<open>insert("b", 4)\<close>, \<open>insert("c", 5)\<close>. The second insert of
  \<open>"i"\<close> stops at the tombstone of \<open>"a"\<close> in slot 4 and stores a second copy there, the
  first staying in slot 5; \<open>get("i")\<close> is 3, at capacity 8. \<open>insert("d", 6)\<close> resizes
  to capacity 16: the rehash reinserts slot 4 and then slot 5, which overwrites the value,
  and \<open>get("i")\<close> is 2.

  Second: \<open>create(8)\<close> and the distinct keys \<open>"a"\<close>, \<open>"b"\<close>, \<open>"c"\<close>, \<open>"l"\<close>. The
  insert of \<open>"ae"\<close> resizes to capacity 16, where \<open>"l"\<close> lands in slot 11; every round
  of \<open>"ae"\<close> probes slot 11, and the insert does not return.
\<close>

theorem resize_changes_value_or_hangs:
  "hashmap_create True True 8 = Inr (Some scenario_t0)
   \<and> hashmap_insert fnv32a_hash_str True True scenario_t0 (Some ''a'') (Some 1)
       = Some (Inr (scenario_t1, Some ''a''))
   \<and> hashmap_insert fnv32a_hash_str True True scenario_t1 (Some ''i'') (Some 2)
       = Some (Inr (collide_t2, Some ''i''))
   \<and> hashmap_remove fnv32a_hash_str collide_t2 (Some ''a'') = Some (Inr (collide_t3, 1))
   \<and> hashmap_insert fnv32a_hash_str True True collide_t3 (Some ''i'') (Some 3)
       = Some (Inr (stale_t4, Some ''i''))
   \<and> hashmap_insert fnv32a_hash_str True True stale_t4 (Some ''b'') (Some 4)
       = Some (Inr (stale_t5, Some ''b''))
   \<and> hashmap_insert fnv32a_hash_str True True stale_t5 (Some ''c'') (Some 5)
       = Some (Inr (stale_t6, Some ''c''))
   \<and> hm_capacity stale_t6 = 8
   \<and> hashmap_get fnv32a_hash_str stale_t6 (Some ''i'') = Some (Inr (Some 3))
   \<and> hashmap_insert fnv32a_hash_str True True stale_t6 (Some ''d'') (Some 6)
       = Some (Inr (stale_t7, Some ''d''))
   \<and> hm_capacity stale_t7 = 16
   \<and> hashmap_get fnv32a_hash_str stale_t7 (Some ''i'') = Some (Inr (Some 2))
   \<and> hashmap_insert fnv32a_hash_str True True scenario_t1 (Some ''b'') (Some 2)
       = Some (Inr (scenario_t2, Some ''b''))
   \<and> hashmap_insert fnv32a_hash_str True True scenario_t2 (Some ''c'') (Some 3)
       = Some (Inr (scenario_t3, Some ''c''))
   \<and> hashmap_insert fnv32a_hash_str True True scenario_t3 (Some ''l'') (Some 4)
       = Some (Inr (hang_t4, Some ''l''))
   \<and> hashtable_expand fnv32a_hash_str True hang_t4 = Some (Inr (hang_t5, 16))
   \<and> hashmap_insert fnv32a_hash_str True True hang_t4 (Some ''ae'') (Some 5) = None"
  using create_8 insert_a insert_i remove_a_t2 insert_i_again insert_b_stale insert_c_stale
    get_i_t6 insert_d_stale get_i_t7 insert_b insert_c insert_l_hang expand_hang insert_ae_hangs
  by (simp add: stale_t6_def stale_t7_def table_def)

section \<open>Claim C5: a lookup that does not return\<close>

lemma hash_key_l_8: "hash_key fnv32a_hash_str (Some ''l'') r 8 = Inr 3"
proof -
  have "hash_key fnv32a_hash_str (Some ''l'') r 8 = Inr (unat (fnv32a_hash_str ''l'') mod 8)"
    by (rule hash_key_degenerate) (simp_all add: HT_PRIME_def SIZE_MAX1_def fnv_l)
  then show ?thesis
    by (simp add: fnv_l)
qed

text \<open>
  Claim C5 says that a lookup always returns. On the table that \<open>create(8)\<close> and
  \<open>insert("d", 4)\<close> build, \<open>hashmap_get\<close> of \<open>"l"\<close> does not return: both keys hash to
  index 3, the step of \<open>"l"\<close> is a multiple of 8, so every round probes slot 3, which holds
  \<open>"d"\<close>, and the loop has no bound on its rounds.
\<close>

theorem get_loops_forever:
  "hashmap_create True True 8 = Inr (Some scenario_t0)
   \<and> hashmap_insert fnv32a_hash_str True True scenario_t0 (Some ''d'') (Some 4)
       = Some (Inr (cycle_t1, Some ''d''))
   \<and> hashmap_get fnv32a_hash_str cycle_t1 (Some ''l'') = None"
proof -
  have "probe fnv32a_hash_str [zero_slot, zero_slot, zero_slot, live ''d'' (4::nat),
          zero_slot, zero_slot, zero_slot, zero_slot] 8 (Some ''l'') 0 3 = None"
    by (rule probe_fixed_point_diverges) (simp_all add: occupied_def live_def hash_key_l_8)
  then have "hashmap_get fnv32a_hash_str cycle_t1 (Some ''l'') = None"
    by (simp add: hashmap_get_def cycle_t1_def table_def hash_key_l_8)
  with create_8 insert_d_first show ?thesis
    by simp
qed

section \<open>Claim C6: the probe function stays in range\<close>

text \<open>
  Claim C6, the part that fails: the claim gives the index as \<open>(h1 + r * h2) mod m\<close> for
  every round. The source computes \<open>rounds * h2\<close> and the sum in \<open>size_t\<close>, where they
  wrap. For the key \<open>"c"\<close>, capacity 100 and round 11025640136010306713, \<open>hash_key\<close>
  returns 57 and the claim's formula gives 89.
\<close>

theorem probe_index_wraps_at_large_round:
  "hash_key fnv32a_hash_str (Some ''c'') 11025640136010306713 100 = Inr 57
   \<and> (unat (fnv32a_hash_str ''c'') mod 100
        + 11025640136010306713 * (HT_PRIME + unat (fnv32a_hash_str ''c'') mod (100 - HT_PRIME)))
       mod 100 = 89"
  by (simp add: hash_key_def fnv_c HT_PRIME_def SIZE_MAX1_def Let_def)

text \<open>
  Claim C6, amended. For every key, every round \<open>r\<close> and every capacity \<open>m\<close> above 37 (and
  below \<open>2 ^ 64\<close>, as every \<open>size_t\<close> is), \<open>hash_key\<close> returns an index below \<open>m\<close>,
  with \<open>h1 = k mod m\<close> and \<open>h2 = 37 + k mod (m - 37)\<close>, and \<open>h2\<close> is never 0. The index
  is \<open>(h1 + r * h2) % m\<close> evaluated in \<open>size_t\<close> arithmetic; it is the exact value
  \<open>(h1 + r * h2) mod m\<close> whenever \<open>h1 + r * h2\<close> is below \<open>2 ^ 64\<close>.
\<close>

theorem hash_key_probe:
  assumes "HT_PRIME < m" and "m < SIZE_MAX1"
  shows "\<exists>i h1 h2. hash_key H (Some s) r m = Inr i
           \<and> h1 = unat (H s) mod m
           \<and> h2 = HT_PRIME + unat (H s) mod (m - HT_PRIME)
           \<and> h2 \<noteq> 0 \<and> i < m
           \<and> i = ((h1 + (r * h2) mod SIZE_MAX1) mod SIZE_MAX1) mod m
           \<and> (h1 + r * h2 < SIZE_MAX1 \<longrightarrow> i = (h1 + r * h2) mod m)"
proof -
  let ?k = "unat (H s)"
  let ?h2 = "HT_PRIME + ?k mod (m - HT_PRIME)"
  have d: "(m + SIZE_MAX1 - HT_PRIME) mod SIZE_MAX1 = m - HT_PRIME"
  proof -
    have "m + SIZE_MAX1 - HT_PRIME = (m - HT_PRIME) + SIZE_MAX1"
      using assms by simp
    moreover have "((m - HT_PRIME) + SIZE_MAX1) mod SIZE_MAX1 = (m - HT_PRIME) mod SIZE_MAX1"
      by simp
    moreover have "(m - HT_PRIME) mod SIZE_MAX1 = m - HT_PRIME"
      using assms by simp
    ultimately show ?thesis by simp
  qed
  have dpos: "m - HT_PRIME \<noteq> 0"
    using assms by simp
  then have "?k mod (m - HT_PRIME) < m - HT_PRIME"
    by simp
  then have "?h2 < SIZE_MAX1"
    using assms by linarith
  then have h2: "?h2 mod SIZE_MAX1 = ?h2"
    by simp
  have m0: "m \<noteq> 0"
    using assms by simp
  have hk: "hash_key H (Some s) r m =
      Inr (((?k mod m + (r * ?h2) mod SIZE_MAX1) mod SIZE_MAX1) mod m)"
    using m0 dpos by (simp add: hash_key_def Let_def d h2)
  have pos: "?h2 \<noteq> 0"
    by (simp add: HT_PRIME_def)
  have lt: "((?k mod m + (r * ?h2) mod SIZE_MAX1) mod SIZE_MAX1) mod m < m"
    using m0 by simp
  have exact: "?k mod m + r * ?h2 < SIZE_MAX1 \<longrightarrow>
      ((?k mod m + (r * ?h2) mod SIZE_MAX1) mod SIZE_MAX1) mod m = (?k mod m + r * ?h2) mod m"
  proof
    assume b: "?k mod m + r * ?h2 < SIZE_MAX1"
    then have "r * ?h2 < SIZE_MAX1"
      by linarith
    then have "(r * ?h2) mod SIZE_MAX1 = r * ?h2"
      by simp
    with b show "((?k mod m + (r * ?h2) mod SIZE_MAX1) mod SIZE_MAX1) mod m
        = (?k mod m + r * ?h2) mod m"
      by simp
  qed
  from hk pos lt exact show ?thesis
    by blast
qed

theorem hash_key_probe_witness:
  "HT_PRIME < 64 \<and> (64::nat) < SIZE_MAX1 \<and>
   (\<exists>i h1 h2. hash_key fnv32a_hash_str (Some ''a'') 3 64 = Inr i
           \<and> h1 = unat (fnv32a_hash_str ''a'') mod 64
           \<and> h2 = HT_PRIME + unat (fnv32a_hash_str ''a'') mod (64 - HT_PRIME)
           \<and> h2 \<noteq> 0 \<and> i < 64
           \<and> i = ((h1 + (3 * h2) mod SIZE_MAX1) mod SIZE_MAX1) mod 64
           \<and> (h1 + 3 * h2 < SIZE_MAX1 \<longrightarrow> i = (h1 + 3 * h2) mod 64))"
  using hash_key_probe[of 64 fnv32a_hash_str "''a''" 3]
  by (simp add: HT_PRIME_def SIZE_MAX1_def)

section \<open>Claim C7: the scenario of the spec\<close>

text \<open>
  For any hash function: an insert that finds the size below half the capacity does not
  resize, so from \<open>create(8)\<close> four inserts that return leave the capacity at 8.
\<close>

lemma insert_below_half:
  assumes "hashmap_insert H calloc_ok strdup_ok hm key val = Some (Inr (hm', res))"
    and "hm_size hm < hm_capacity hm div HT_EXPANSION_FACTOR"
  shows "hm_capacity hm' = hm_capacity hm \<and> hm_size hm' \<le> hm_size hm + 1"
proof (cases "hm_slots hm = None \<or> val = None")
  case True
  then have "hashmap_insert H calloc_ok strdup_ok hm key val = Some (Inr (hm, None))"
    unfolding hashmap_insert_def by (simp only: if_True)
  with assms(1) show ?thesis by simp
next
  case False
  let ?S = "hashtable_slot_insert H strdup_ok (hm_slots hm) (hm_capacity hm) key val 0"
  from assms(2) have nt: "\<not> hm_capacity hm div HT_EXPANSION_FACTOR \<le> hm_size hm"
    by simp
  have unfold: "hashmap_insert H calloc_ok strdup_ok hm key val =
      (case ?S of
         None \<Rightarrow> None
       | Some (Inl e) \<Rightarrow> Some (Inl e)
       | Some (Inr (slots', result)) \<Rightarrow>
           if result = None then Some (Inr (hm\<lparr>hm_slots := slots'\<rparr>, None))
           else Some (Inr (hm\<lparr>hm_slots := slots',
                               hm_size := (hm_size hm + 1) mod SIZE_MAX1\<rparr>, result)))"
    unfolding hashmap_insert_def
    by (simp only: False nt if_False option.case sum.case prod.case)
  have le: "(hm_size hm + 1) mod SIZE_MAX1 \<le> hm_size hm + 1"
    by simp
  show ?thesis
  proof (cases ?S)
    case None
    with unfold assms(1) show ?thesis by simp
  next
    case (Some a)
    show ?thesis
    proof (cases a)
      case (Inl e)
      with Some unfold assms(1) show ?thesis by simp
    next
      case (Inr p)
      obtain slots' result where "p = (slots', result)" by (cases p)
      with Inr Some unfold assms(1) le show ?thesis by (auto split: if_splits)
    qed
  qed
qed

lemma inserts_below_half_keep_capacity:
  assumes "insert_all H hm0 kvs = Some (Inr hm)"
    and "hm_size hm0 + length kvs \<le> hm_capacity hm0 div HT_EXPANSION_FACTOR"
  shows "hm_capacity hm = hm_capacity hm0 \<and> hm_size hm \<le> hm_size hm0 + length kvs"
  using assms
proof (induction kvs arbitrary: hm0)
  case Nil
  then show ?case by simp
next
  case (Cons kv kvs)
  obtain k v where kv: "kv = (k, v)" by (cases kv)
  let ?I = "hashmap_insert H True True hm0 (Some k) (Some v)"
  from Cons.prems(1) kv have run: "(case ?I of
        None \<Rightarrow> None
      | Some (Inl e) \<Rightarrow> Some (Inl e)
      | Some (Inr (hm', _)) \<Rightarrow> insert_all H hm' kvs) = Some (Inr hm)"
    by simp
  obtain hm1 res where I: "?I = Some (Inr (hm1, res))"
  proof (cases ?I)
    case None
    with run show ?thesis by simp
  next
    case (Some a)
    show ?thesis
    proof (cases a)
      case (Inl e)
      with Some run show ?thesis by simp
    next
      case (Inr p)
      with Some that show ?thesis by (cases p) simp
    qed
  qed
  with run have rest: "insert_all H hm1 kvs = Some (Inr hm)" by simp
  from Cons.prems(2) have "hm_size hm0 < hm_capacity hm0 div HT_EXPANSION_FACTOR" by simp
  from insert_below_half[OF I this]
  have one: "hm_capacity hm1 = hm_capacity hm0" "hm_size hm1 \<le> hm_size hm0 + 1"
    by simp_all
  with Cons.prems(2) have "hm_size hm1 + length kvs \<le> hm_capacity hm1 div HT_EXPANSION_FACTOR"
    by simp
  from Cons.IH[OF rest this] one show ?case by simp
qed

lemma four_inserts_keep_capacity_8:
  assumes "hashmap_create True True 8 = Inr (Some hm0)"
    and "insert_all H hm0 [(k1, v1), (k2, v2), (k3, v3), (k4, v4)] = Some (Inr hm)"
  shows "hm_capacity hm = 8"
proof -
  from assms(1) have "hm_size hm0 = 0" "hm_capacity hm0 = 8"
    by (auto simp: hashmap_create_def)
  with inserts_below_half_keep_capacity[OF assms(2)] show ?thesis
    by (simp add: HT_EXPANSION_FACTOR_def)
qed

text \<open>
  Claim C7, the part that fails: the claim has the fourth insert resize the table to
  capacity 16. The check of line 143 runs before the fourth key is placed, when the size is
  3, and \<open>3 >= 8 / 2\<close> is false: the table keeps capacity 8.
\<close>

theorem scenario_fourth_insert_no_resize:
  "hashmap_create True True 8 = Inr (Some scenario_t0)
   \<and> hashmap_insert fnv32a_hash_str True True scenario_t0 (Some ''a'') (Some 1)
       = Some (Inr (scenario_t1, Some ''a''))
   \<and> hashmap_insert fnv32a_hash_str True True scenario_t1 (Some ''b'') (Some 2)
       = Some (Inr (scenario_t2, Some ''b''))
   \<and> hashmap_insert fnv32a_hash_str True True scenario_t2 (Some ''c'') (Some 3)
       = Some (Inr (scenario_t3, Some ''c''))
   \<and> hashmap_insert fnv32a_hash_str True True scenario_t3 (Some ''d'') (Some 4)
       = Some (Inr (scenario_t4, Some ''d''))
   \<and> hm_capacity scenario_t4 \<noteq> 16"
  using create_8 insert_a insert_b insert_c insert_d
  by (simp add: scenario_t4_def table_def)

text \<open>
  Claim C7, amended: from \<open>create(8)\<close>, the four inserts of \<open>"a"\<close>, \<open>"b"\<close>, \<open>"c"\<close>,
  \<open>"d"\<close> leave size 4 and capacity 8 (no resize); then \<open>get("a") = 1\<close> and
  \<open>get("b") = 2\<close>; \<open>remove("b")\<close> returns 1 and makes \<open>get("b")\<close> absent with size 3;
  \<open>insert("b", 5)\<close> makes \<open>get("b") = 5\<close> with size 4 and capacity 8.
\<close>

theorem scenario_capacity_8:
  "hashmap_create True True 8 = Inr (Some scenario_t0)
   \<and> hashmap_insert fnv32a_hash_str True True scenario_t0 (Some ''a'') (Some 1)
       = Some (Inr (scenario_t1, Some ''a''))
   \<and> hashmap_insert fnv32a_hash_str True True scenario_t1 (Some ''b'') (Some 2)
       = Some (Inr (scenario_t2, Some ''b''))
   \<and> hashmap_insert fnv32a_hash_str True True scenario_t2 (Some ''c'') (Some 3)
       = Some (Inr (scenario_t3, Some ''c''))
   \<and> hashmap_insert fnv32a_hash_str True True scenario_t3 (Some ''d'') (Some 4)
       = Some (Inr (scenario_t4, Some ''d''))
   \<and> hm_size scenario_t4 = 4 \<and> hm_capacity scenario_t4 = 8
   \<and> hashmap_get fnv32a_hash_str scenario_t4 (Some ''a'') = Some (Inr (Some 1))
   \<and> hashmap_get fnv32a_hash_str scenario_t4 (Some ''b'') = Some (Inr (Some 2))
   \<and> hashmap_remove fnv32a_hash_str scenario_t4 (Some ''b'') = Some (Inr (scenario_t5, 1))
   \<and> hashmap_get fnv32a_hash_str scenario_t5 (Some ''b'') = Some (Inr None)
   \<and> hm_size scenario_t5 = 3
   \<and> hashmap_insert fnv32a_hash_str True True scenario_t5 (Some ''b'') (Some 5)
       = Some (Inr (scenario_t6, Some ''b''))
   \<and> hashmap_get fnv32a_hash_str scenario_t6 (Some ''b'') = Some (Inr (Some 5))
   \<and> hm_size scenario_t6 = 4 \<and> hm_capacity scenario_t6 = 8"
  using create_8 insert_a insert_b insert_c insert_d get_a_t4 get_b_t4 remove_b_t4 get_b_t5
    insert_b_t5 get_b_t6
  by (simp add: scenario_t4_def scenario_t5_def scenario_t6_def table_def)

section \<open>Claim C8: a null value is rejected\<close>

text \<open>
  Claim C8. For every table and every key, \<open>hashmap_insert\<close> with a \<open>NULL\<close> value
  returns \<open>NULL\<close> and leaves the table as it was: same size, same capacity, same slots.
  This holds whatever the allocator would have done.
\<close>

theorem insert_null_value_rejected:
  "hashmap_insert H calloc_ok strdup_ok hm key None = Some (Inr (hm, None))"
  by (simp add: hashmap_insert_def)

section \<open>Claim C9: a resize whose allocation fails\<close>

text \<open>
  For any table with an array: when the \<open>calloc\<close> of the resize fails, every rehash call
  returns at the \<open>slots == NULL\<close> guard, and the table is left with a \<open>NULL\<close> array and
  the doubled capacity.
\<close>

lemma rehash_null:
  assumes "cap \<le> length xs"
  shows "rehash H (Some xs) cap ncap i None = Some (Inr None)"
  using assms
proof (induction "cap - i" arbitrary: i)
  case 0
  then show ?case by (subst rehash.simps) simp
next
  case (Suc n)
  then have "i < cap" "i < length xs" "n = cap - (i + 1)" by simp_all
  with Suc.hyps(1)[of "i + 1"] Suc.prems show ?case
    by (subst rehash.simps) (simp add: hashtable_slot_insert_def)
qed

lemma expand_alloc_failure:
  assumes "hm_slots hm = Some xs" and "hm_capacity hm \<le> length xs"
  shows "hashtable_expand H False hm =
           Some (Inr (hm\<lparr>hm_slots := None,
                          hm_capacity := (hm_capacity hm * HT_EXPANSION_FACTOR) mod SIZE_MAX1\<rparr>,
                      (hm_capacity hm * HT_EXPANSION_FACTOR) mod SIZE_MAX1))"
  using assms by (simp add: hashtable_expand_def Let_def rehash_null)

text \<open>
  Claim C9 says that a resize whose allocation fails leaves the old table intact and usable.
  On the table of the four keys \<open>"a"\<close> to \<open>"d"\<close>, the fifth insert resizes; when \<open>calloc\<close>
  returns \<open>NULL\<close> the source goes on: it frees the old array, stores \<open>NULL\<close> as the slot
  array and doubles the capacity. The insert returns \<open>NULL\<close>, the four keys are gone, and
  a later \<open>hashmap_get\<close> reads through the \<open>NULL\<close> array.
\<close>

theorem resize_alloc_failure_loses_table:
  "hashmap_insert fnv32a_hash_str False True scenario_t4 (Some ''e'') (Some 5)
       = Some (Inr (lost_t5, None))
   \<and> hm_slots scenario_t4 \<noteq> None
   \<and> hm_slots lost_t5 = None \<and> hm_capacity lost_t5 = 16
   \<and> hashmap_get fnv32a_hash_str scenario_t4 (Some ''a'') = Some (Inr (Some 1))
   \<and> hashmap_get fnv32a_hash_str lost_t5 (Some ''a'') = Some (Inl NullDeref)"
  using insert_e_calloc_fails get_a_t4 get_a_lost
  by (simp add: scenario_t4_def lost_t5_def table_def)

section \<open>Claim C10: a null key is absent\<close>

text \<open>
  Claim C10. \<open>hashmap_get\<close> with a \<open>NULL\<close> key returns \<open>NULL\<close> at once. The result does
  not depend on the table: it is the same when the slot array is \<open>NULL\<close> or the capacity
  is 0 or 37, where any probe would fault, so no slot is read. The model of
  \<open>hashmap_get\<close> returns no table because the source never writes to it.
\<close>

theorem get_null_key_absent:
  "hashmap_get H hm None = Some (Inr None)"
  by (simp add: hashmap_get_def)

end
